theory Spec2Isabelle
  imports Main "HOL-Library.Word" "HOL-Library.Multiset"
begin

unbundle bit_operations_syntax

section \<open>The file cache store (cmaj\_FileBasedCacheDatabase.h)\<close>

text \<open>
  The cache keeps its entries directly in one folder. The folder is a map from names to
  entries; an entry is a regular file or a directory and has its bytes (none for a
  directory) and its modification time. What the environment decides is an input of the
  operation that depends on it: the clock, the number of bytes a stream read delivers,
  whether a write goes through and what a failed write leaves behind, and which entries
  \<open>remove\<close> is able to delete. \<open>file_size\<close> throws for a missing entry and for a directory;
  \<open>last_write_time\<close> throws for a missing entry. The mutex only serialises the three
  operations, which are modelled as atomic steps.
\<close>

type_synonym byte = "8 word"

record cache_file =
  content :: "byte list"
  mtime :: nat
  directory :: bool

type_synonym folder = "string \<rightharpoonup> cache_file"

definition getFileNamePrefix :: string where
  "getFileNamePrefix = ''cmajor_cache_''"

definition getCacheFile :: "string \<Rightarrow> string" where
  "getCacheFile key = getFileNamePrefix @ key"

text \<open>
  \<open>store\<close>: \<open>choc::file::replaceFileWithContent\<close> under the lock, inside a catch-all that
  swallows every failure. The write cannot go through when the name is taken by a
  directory. A write that fails before the file is opened leaves the folder as it was
  (\<open>WriteFailed None\<close>); one that fails later leaves a file with the bytes that got written
  (\<open>WriteFailed (Some bytes)\<close>). The purge thread is triggered afterwards and runs
  \<open>removeOldFiles\<close> as a later step.
\<close>

datatype write_outcome = Written | WriteFailed "byte list option"

definition store :: "nat \<Rightarrow> write_outcome \<Rightarrow> string \<Rightarrow> byte list \<Rightarrow> folder \<Rightarrow> folder" where
  "store now outcome key dataToSave fs =
     (let name = getCacheFile key in
      if (case fs name of None \<Rightarrow> False | Some f \<Rightarrow> directory f) then fs
      else (case outcome of
              Written \<Rightarrow> fs(name \<mapsto> \<lparr>content = dataToSave, mtime = now, directory = False\<rparr>)
            | WriteFailed None \<Rightarrow> fs
            | WriteFailed (Some bytes) \<Rightarrow>
                fs(name \<mapsto> \<lparr>content = bytes, mtime = now, directory = False\<rparr>)))"

text \<open>
  \<open>reload\<close> returns the value returned to the caller, the destination buffer afterwards
  (\<open>None\<close> is the null pointer) and the folder afterwards. A missing file or a directory
  makes \<open>file_size\<close> throw, which the catch-all turns into the result 0. \<open>avail\<close> bounds the
  number of bytes the stream read delivers, so \<open>gcount\<close> is \<open>min fileSize avail\<close>. The
  touch (one byte written past the end, then \<open>resize_file\<close> back) leaves the bytes as
  they were and sets the modification time to the clock.
\<close>

definition reload ::
  "nat \<Rightarrow> nat \<Rightarrow> string \<Rightarrow> byte list option \<Rightarrow> nat \<Rightarrow> folder
     \<Rightarrow> nat \<times> byte list option \<times> folder" where
  "reload now avail key destAddress destSize fs =
     (let name = getCacheFile key in
      case fs name of
        None \<Rightarrow> (0, destAddress, fs)
      | Some f \<Rightarrow>
          (let fileSize = length (content f) in
           if directory f then (0, destAddress, fs)
           else if fileSize = 0 then (0, destAddress, fs)
           else (case destAddress of
                   None \<Rightarrow> (fileSize, None, fs)
                 | Some buf \<Rightarrow>
                     if destSize < fileSize then (fileSize, Some buf, fs)
                     else
                       (let gcount = min fileSize avail;
                            buf' = take gcount (content f) @ drop gcount buf
                        in if gcount \<noteq> fileSize then (0, Some buf', fs)
                           else (fileSize, Some buf', fs(name \<mapsto> f\<lparr>mtime := now\<rparr>))))))"

text \<open>\<open>std::filesystem::path::stem\<close>: the file name up to its last period; a leading
  period does not start an extension, and the names dot and dot-dot are kept whole.\<close>

definition stem :: "string \<Rightarrow> string" where
  "stem name =
     (if name = ''.'' \<or> name = ''..'' then name
      else (case name of
              [] \<Rightarrow> []
            | c # rest \<Rightarrow>
                if CHR ''.'' \<in> set rest
                then c # rev (tl (dropWhile (\<lambda>x. x \<noteq> CHR ''.'') (rev rest)))
                else name))"

definition startsWith :: "string \<Rightarrow> string \<Rightarrow> bool" where
  "startsWith text possibleStart = (take (length possibleStart) text = possibleStart)"

text \<open>
  \<open>removeOldFiles\<close>. \<open>entries\<close> is the order in which the directory iterator yields the
  names; every listed entry whose stem starts with the prefix is counted, regular file or
  not. \<open>std::sort\<close> by modification time is modelled by \<open>sort_key\<close>; the order it gives to
  entries of equal time is one of those \<open>std::sort\<close> may give. \<open>removable\<close> tells for which
  names \<open>remove\<close> goes through; a failed \<open>remove\<close> is swallowed and the loop carries on.
\<close>

fun collectFiles :: "string list \<Rightarrow> folder \<Rightarrow> (string \<times> nat) list" where
  "collectFiles [] fs = []"
| "collectFiles (n # ns) fs =
     (if startsWith (stem n) getFileNamePrefix
      then (case fs n of
              None \<Rightarrow> collectFiles ns fs
            | Some f \<Rightarrow> (n, mtime f) # collectFiles ns fs)
      else collectFiles ns fs)"

definition removeFiles :: "(string \<Rightarrow> bool) \<Rightarrow> string list \<Rightarrow> folder \<Rightarrow> folder" where
  "removeFiles removable names fs =
     fold (\<lambda>n fs'. if removable n then fs'(n := None) else fs') names fs"

definition removeOldFiles :: "nat \<Rightarrow> (string \<Rightarrow> bool) \<Rightarrow> string list \<Rightarrow> folder \<Rightarrow> folder" where
  "removeOldFiles maxNumFiles removable entries fs =
     (let files = sort_key snd (collectFiles entries fs)
      in if length files > maxNumFiles
         then removeFiles removable (map fst (take (length files - maxNumFiles) files)) fs
         else fs)"

subsection \<open>Notions used to state the cache properties\<close>

text \<open>The entries the purge worker considers: those present in the folder whose name stem
  starts with the cache prefix. \<open>mtimeOf\<close> reads an entry's modification time.\<close>

definition cacheFiles :: "folder \<Rightarrow> string set" where
  "cacheFiles fs = {n \<in> dom fs. startsWith (stem n) getFileNamePrefix}"

definition mtimeOf :: "folder \<Rightarrow> string \<Rightarrow> nat" where
  "mtimeOf fs n = (case fs n of None \<Rightarrow> 0 | Some f \<Rightarrow> mtime f)"

text \<open>
  A history of the cache in which every write and every deletion goes through: calls of
  \<open>store\<close> and \<open>reload\<close> and runs of the purge worker, each with the clock value at which
  it happens. A \<open>Reload\<close> step carries the destination buffer, its size and the number of
  bytes the stream delivers; a \<open>Purge\<close> step carries the order in which the directory
  iterator lists the folder. \<open>listingsOk\<close> says that every such listing names each entry of
  the folder at that moment exactly once.
\<close>

datatype cache_step =
    Store string "byte list"
  | Reload string "byte list option" nat nat
  | Purge "string list"

fun stepCache :: "nat \<Rightarrow> nat \<Rightarrow> cache_step \<Rightarrow> folder \<Rightarrow> folder" where
  "stepCache maxNumFiles now (Store key v) fs = store now Written key v fs"
| "stepCache maxNumFiles now (Reload key dest destSize avail) fs =
     snd (snd (reload now avail key dest destSize fs))"
| "stepCache maxNumFiles now (Purge entries) fs =
     removeOldFiles maxNumFiles (\<lambda>n. True) entries fs"

fun runCache :: "nat \<Rightarrow> (nat \<times> cache_step) list \<Rightarrow> folder \<Rightarrow> folder" where
  "runCache maxNumFiles [] fs = fs"
| "runCache maxNumFiles ((now, s) # rest) fs =
     runCache maxNumFiles rest (stepCache maxNumFiles now s fs)"








definition olderThan :: "nat \<Rightarrow> folder \<Rightarrow> bool" where
  "olderThan now fs \<longleftrightarrow> (\<forall>n \<in> cacheFiles fs. mtimeOf fs n < now)"

text \<open>The keys stored by a history, in order; histories made of stores and purges only;
  histories whose last step is a run of the purge worker.\<close>

fun storedKeys :: "(nat \<times> cache_step) list \<Rightarrow> string list" where
  "storedKeys [] = []"
| "storedKeys ((now, Store key v) # rest) = key # storedKeys rest"
| "storedKeys (_ # rest) = storedKeys rest"



section \<open>The rendering driver (cmaj\_RenderingAudioMIDIPlayer.h)\<close>

text \<open>
  One iteration of the render loop, from the call of \<open>prepareToStart\<close> to the end of the
  MIDI-aware sub-blocking. What the driver does to the callback is the list of calls it
  makes, in order. A \<open>Process\<close> call carries the frame range of the segment it is given
  and its \<open>replaceOutput\<close> flag. The MIDI messages are kept abstract.
\<close>

datatype 'm callback_call =
    PrepareToStart nat
  | AddIncomingMIDIEvent 'm
  | Process nat nat bool

text \<open>The inner loop: it advances \<open>endOfMIDI\<close> over the events that are not after the
  start of the chunk and cuts the chunk at the first later event.\<close>

function scanMIDI :: "nat list \<Rightarrow> nat \<Rightarrow> nat \<times> nat \<Rightarrow> nat \<Rightarrow> (nat \<times> nat) \<times> nat" where
  "scanMIDI midiMessageTimes totalNumMIDIMessages chunkToDo endOfMIDI =
     (if endOfMIDI < totalNumMIDIMessages
      then (let eventTime = midiMessageTimes ! endOfMIDI
            in if eventTime > fst chunkToDo
               then ((fst chunkToDo, eventTime), endOfMIDI)
               else scanMIDI midiMessageTimes totalNumMIDIMessages chunkToDo (endOfMIDI + 1))
      else (chunkToDo, endOfMIDI))"
  by pat_completeness auto
termination
  by (relation "measure (\<lambda>(ts, tot, chunk, e). tot - e)") auto

declare scanMIDI.simps [simp del]

text \<open>The outer loop over the frame range. It ends because every chunk ends after its
  start.\<close>

function renderChunks ::
  "'m list \<Rightarrow> nat list \<Rightarrow> nat \<Rightarrow> nat \<times> nat \<Rightarrow> nat \<Rightarrow> 'm callback_call list" where
  "renderChunks midiMessages midiMessageTimes totalNumMIDIMessages frameRange midiStart =
     (if fst frameRange < snd frameRange
      then (let (chunkToDo, endOfMIDI) =
                  scanMIDI midiMessageTimes totalNumMIDIMessages frameRange midiStart
            in map (\<lambda>i. AddIncomingMIDIEvent (midiMessages ! i)) [midiStart ..< endOfMIDI]
               @ Process (fst chunkToDo) (snd chunkToDo) True
               # renderChunks midiMessages midiMessageTimes totalNumMIDIMessages
                   (snd chunkToDo, snd frameRange) endOfMIDI)
      else [])"
  by pat_completeness auto
termination
proof (relation "measure (\<lambda>(ms, ts, tot, fr, m). snd fr - fst fr)", goal_cases)
  case 1
  then show ?case by simp
next
  case (2 midiMessages midiMessageTimes totalNumMIDIMessages frameRange midiStart x chunkToDo endOfMIDI)
  have gt: "fst chunk < snd chunk \<Longrightarrow> fst chunk < snd (fst (scanMIDI ts tot chunk e))"
    for ts tot chunk e
  proof (induction ts tot chunk e rule: scanMIDI.induct)
    case (1 ts tot chunk e)
    then show ?case
      by (subst scanMIDI.simps) (simp add: Let_def)
  qed
  have "fst frameRange < snd (fst (scanMIDI midiMessageTimes totalNumMIDIMessages frameRange midiStart))"
    using 2(1) by (rule gt)
  moreover have "chunkToDo = fst (scanMIDI midiMessageTimes totalNumMIDIMessages frameRange midiStart)"
    using 2(2,3) by (metis fst_conv)
  ultimately show ?case using 2(1) by simp
qed

declare renderChunks.simps [simp del]

text \<open>
  The iteration. \<open>None\<close> stands for the failed assertion that the two MIDI vectors have
  the same size. The number of messages is converted to 32 bits, as in the source.
\<close>

definition renderBlock ::
  "nat \<Rightarrow> nat \<Rightarrow> 'm list \<Rightarrow> nat list \<Rightarrow> 'm callback_call list option" where
  "renderBlock sampleRate blockSize midiMessages midiMessageTimes =
     (if length midiMessages \<noteq> length midiMessageTimes then None
      else (let totalNumMIDIMessages = length midiMessages mod 2 ^ 32
            in Some (PrepareToStart sampleRate #
                 (if totalNumMIDIMessages \<noteq> 0
                  then renderChunks midiMessages midiMessageTimes totalNumMIDIMessages
                         (0, blockSize) 0
                  else [Process 0 blockSize True]))))"

subsection \<open>Notions used to state the sub-blocking property\<close>

text \<open>
  Readings of a list of calls: the frame ranges of its \<open>Process\<close> calls, the messages it
  delivers, for each \<open>Process\<close> call the start of its segment with the messages delivered
  before it, and the \<open>replaceOutput\<close> flags. \<open>covers s E ps\<close> says that the ranges \<open>ps\<close>
  are non-empty, follow one another without gap and lead from \<open>s\<close> to \<open>E\<close>.
  \<open>nextEventOrEnd\<close> is the time of the first event after \<open>s\<close>, or the end of the block.
\<close>

fun processRanges :: "'m callback_call list \<Rightarrow> (nat \<times> nat) list" where
  "processRanges [] = []"
| "processRanges (Process s e r # cs) = (s, e) # processRanges cs"
| "processRanges (_ # cs) = processRanges cs"

fun delivered :: "'m callback_call list \<Rightarrow> 'm list" where
  "delivered [] = []"
| "delivered (AddIncomingMIDIEvent m # cs) = m # delivered cs"
| "delivered (_ # cs) = delivered cs"

fun deliveredBefore :: "'m list \<Rightarrow> 'm callback_call list \<Rightarrow> (nat \<times> 'm list) list" where
  "deliveredBefore acc [] = []"
| "deliveredBefore acc (AddIncomingMIDIEvent m # cs) = deliveredBefore (acc @ [m]) cs"
| "deliveredBefore acc (Process s e r # cs) = (s, acc) # deliveredBefore acc cs"
| "deliveredBefore acc (PrepareToStart r # cs) = deliveredBefore acc cs"

fun replaceFlags :: "'m callback_call list \<Rightarrow> bool list" where
  "replaceFlags [] = []"
| "replaceFlags (Process s e r # cs) = r # replaceFlags cs"
| "replaceFlags (_ # cs) = replaceFlags cs"

fun covers :: "nat \<Rightarrow> nat \<Rightarrow> (nat \<times> nat) list \<Rightarrow> bool" where
  "covers s E [] = (s = E)"
| "covers s E ((a, b) # ps) = (a = s \<and> a < b \<and> covers b E ps)"

definition nextEventOrEnd :: "nat list \<Rightarrow> nat \<Rightarrow> nat \<Rightarrow> nat" where
  "nextEventOrEnd midiTimes blockEnd s =
     (case filter (\<lambda>t. s < t) midiTimes of [] \<Rightarrow> blockEnd | t # _ \<Rightarrow> t)"

section \<open>The performer harness (cmaj\_AudioMIDIPerformer.h)\<close>

text \<open>
  The state of the harness is a record of its members together with what it has done to its
  surroundings: the calls made on the performer so far, the host's output memory, the MIDI
  messages handed to the host callback and the number of times the dispatcher thread was
  triggered. Audio samples are of any type with a zero and an addition. Bytes are laid out
  least significant first (the byte order of the machines the code is built for).

  Everything \<open>process\<close> does sits in one try block whose handlers return false. A failed
  assertion of the harness or of the buffer views (\<open>CMAJ_ASSERT\<close>, and the range checks of
  \<open>getChannel\<close>, \<open>getFrameRange\<close> and \<open>getStart\<close>, which the handler for
  \<open>AbortCompilationException\<close> is there to catch) is such an exception; a step that throws
  keeps the changes it made before. The performer's calls, the host's MIDI callback and
  memory allocation are taken not to throw.
\<close>

subsection \<open>Values that cross the interfaces\<close>

type_synonym EndpointHandle = "32 word"

datatype ShortMessage = ShortMessage byte byte byte

definition writeNativeEndian32 :: "32 word \<Rightarrow> byte list" where
  "writeNativeEndian32 w = map (\<lambda>k. ucast (drop_bit (8 * k) w)) [0, 1, 2, 3]"

definition writeNativeEndian64 :: "64 word \<Rightarrow> byte list" where
  "writeNativeEndian64 w = map (\<lambda>k. ucast (drop_bit (8 * k) w)) [0, 1, 2, 3, 4, 5, 6, 7]"

definition readNativeEndian32 :: "byte list \<Rightarrow> 32 word" where
  "readNativeEndian32 d = foldr (\<lambda>b acc. ucast b OR push_bit 8 acc) (take 4 d) 0"

definition packMIDI :: "ShortMessage \<Rightarrow> 32 word" where
  "packMIDI m = (case m of ShortMessage b0 b1 b2 \<Rightarrow>
     push_bit 16 (ucast b0) OR push_bit 8 (ucast b1) OR ucast b2)"

text \<open>The three MIDI bytes are packed into the low 24 bits of a word, first byte highest
  (\<open>MIDIEvents::packedMIDIDataToMessage\<close> is the inverse, as the packing in \<open>process\<close> shows).\<close>

definition packedMIDIDataToMessage :: "32 word \<Rightarrow> ShortMessage" where
  "packedMIDIDataToMessage packed =
     ShortMessage (ucast (drop_bit 16 packed)) (ucast (drop_bit 8 packed)) (ucast packed)"

record OutputEvent =
  dataTypeIndex :: "32 word"
  frameOffset :: "32 word"
  eventData :: "byte list"

text \<open>Modelled from the spec: the performer is reached only through the calls listed as the
  assumed performer interface. The harness records the calls it makes; what the performer
  hands back (rendered frames, emitted events) is a function of the calls made so far.\<close>

datatype 's performer_call =
    SetBlockSize nat
  | SetInputFrames EndpointHandle "(nat \<times> 's list) list" nat
  | AddInputEvent EndpointHandle "32 word" "byte list"
  | AddInputEventPacked EndpointHandle "32 word" "32 word"
  | SetInputValue EndpointHandle "byte list" "32 word"
  | Advance
  | CopyOutputFrames EndpointHandle nat nat
  | IterateOutputEvents EndpointHandle

record 's Performer =
  getMaximumBlockSize :: nat
  getEventBufferSize :: nat
  outputFrames :: "'s performer_call list \<Rightarrow> EndpointHandle \<Rightarrow> nat \<Rightarrow> nat \<Rightarrow> 's"
  outputEvents :: "'s performer_call list \<Rightarrow> EndpointHandle \<Rightarrow> OutputEvent list"

datatype EndpointType = unknown_endpoint | stream_endpoint | value_endpoint | event_endpoint

datatype ValueType = float32_type | float64_type | other_type | vector_type ValueType nat

record EndpointDetails =
  endpointID :: string
  endpointType :: EndpointType
  dataTypes :: "ValueType list"
  isMIDI :: bool

definition isFloat :: "ValueType \<Rightarrow> bool" where
  "isFloat t = (t = float32_type \<or> t = float64_type)"

text \<open>The endpoint types and value types are reduced to what the channel count reads. The
  source takes \<open>dataTypes.front()\<close>; an endpoint without a data type, for which that is not
  defined, gets no channels here.\<close>

fun getNumFloatChannelsInStream :: "EndpointDetails \<Rightarrow> nat" where
  "getNumFloatChannelsInStream details =
     (if endpointType details = stream_endpoint
      then (case dataTypes details of
              [] \<Rightarrow> 0
            | t # _ \<Rightarrow>
                if isFloat t then 1
                else (case t of
                        vector_type elementType numElements \<Rightarrow>
                          if isFloat elementType then numElements else 0
                      | _ \<Rightarrow> 0))
      else 0)"

record 's Engine =
  engineCreatePerformer :: "'s Performer option"
  getEndpointHandle :: "string \<Rightarrow> EndpointHandle"
  getOutputEndpoints :: "EndpointDetails list"

text \<open>Modelled from the spec: \<open>choc::fifo::VariableSizeFIFO\<close> belongs to the choc library,
  which is outside these files. A queue is its pending items and an admission test, which
  may depend on the items pending and on the size asked for; \<open>push\<close> appends the item
  when the test passes and leaves the queue alone otherwise.\<close>

record VariableSizeFIFO =
  fifoItems :: "byte list list"
  hasSpaceFor :: "byte list list \<Rightarrow> nat \<Rightarrow> bool"

definition push :: "nat \<Rightarrow> byte list \<Rightarrow> VariableSizeFIFO \<Rightarrow> bool \<times> VariableSizeFIFO" where
  "push numBytes written q =
     (if hasSpaceFor q (fifoItems q) numBytes
      then (True, q\<lparr>fifoItems := fifoItems q @ [written]\<rparr>)
      else (False, q))"

text \<open>
  A view on channel-major host memory: the frames \<open>frameStart\<close> up to
  \<open>frameStart + numFrames\<close> of the channels below \<open>numChannels\<close>. Memory is addressed by
  channel and absolute frame, so the views of the sub-blocks of one block alias the
  block's own memory, as pointers into it do. \<open>getFrameRange\<close> asserts that the range lies
  within the view.
\<close>

record ChannelArrayView =
  frameStart :: nat
  numChannels :: nat
  numFrames :: nat

definition getFrameRange :: "ChannelArrayView \<Rightarrow> nat \<times> nat \<Rightarrow> ChannelArrayView option" where
  "getFrameRange v r =
     (if fst r \<le> snd r \<and> snd r \<le> numFrames v
      then Some (v\<lparr>frameStart := frameStart v + fst r, numFrames := snd r - fst r\<rparr>)
      else None)"

record 's Block =
  inputSamples :: "nat \<Rightarrow> nat \<Rightarrow> 's"
  audioInput :: ChannelArrayView
  audioOutput :: ChannelArrayView
  blockMidiMessages :: "ShortMessage list"
  onMidiOutputMessage :: bool

text \<open>
  The closures that the builder pushes onto the three function lists capture only values
  (handles, channel numbers, channel maps), so each closure is a constructor holding what it
  captured, and \<open>runPreRender\<close> and \<open>runPostRender\<close> below are the closure bodies.
\<close>

record ChannelMap =
  source :: nat
  dest :: nat

datatype preRenderFunction =
  InputCopy EndpointHandle nat "nat list" "nat list"

datatype postRenderFunction =
    OutputAdd EndpointHandle nat "ChannelMap list"
  | OutputReplaceOne EndpointHandle nat
  | OutputReplaceFanOut EndpointHandle "ChannelMap list"
  | OutputReplaceViaScratch EndpointHandle nat "ChannelMap list" "ChannelMap list"
  | ClearAll
  | ClearAbove nat
  | ClearChannelsAndAbove "nat list" nat

record 's AudioMIDIPerformer =
  engine :: "'s Engine"
  performer :: "'s Performer option"
  performerCalls :: "'s performer_call list"
  preRenderFunctions :: "preRenderFunction list"
  postRenderReplaceFunctions :: "postRenderFunction list"
  postRenderAddFunctions :: "postRenderFunction list"
  midiInputEndpoints :: "EndpointHandle list"
  midiOutputEndpoints :: "EndpointHandle list"
  eventOutputHandles :: "(EndpointHandle \<times> string) list"
  eventQueue :: VariableSizeFIFO
  valueQueue :: VariableSizeFIFO
  outputEventQueue :: VariableSizeFIFO
  midiOutputMessages :: "(ShortMessage \<times> 32 word) list"
  numFramesProcessed :: "64 word"
  currentMaxBlockSize :: nat
  hostOutput :: "nat \<Rightarrow> nat \<Rightarrow> 's"
  midiOutputDelivered :: "(32 word \<times> ShortMessage) list"
  dispatcherTriggers :: nat

definition maxFramesPerBlock :: nat where
  "maxFramesPerBlock = 512"


text \<open>The constructor: three empty queues of the given size, no performer yet, and the
  members' initial values. The host memory is whatever it is at that moment.\<close>

definition newFIFO :: "(nat \<Rightarrow> byte list list \<Rightarrow> nat \<Rightarrow> bool) \<Rightarrow> nat \<Rightarrow> VariableSizeFIFO" where
  "newFIFO space fifoSize = \<lparr>fifoItems = [], hasSpaceFor = space fifoSize\<rparr>"

definition newAudioMIDIPerformer ::
  "'s Engine \<Rightarrow> (nat \<Rightarrow> byte list list \<Rightarrow> nat \<Rightarrow> bool) \<Rightarrow> nat \<Rightarrow> (nat \<Rightarrow> nat \<Rightarrow> 's)
     \<Rightarrow> 's AudioMIDIPerformer" where
  "newAudioMIDIPerformer e space eventFIFOSize hostMemory =
     \<lparr>engine = e, performer = None, performerCalls = [],
      preRenderFunctions = [], postRenderReplaceFunctions = [], postRenderAddFunctions = [],
      midiInputEndpoints = [], midiOutputEndpoints = [], eventOutputHandles = [],
      eventQueue = newFIFO space eventFIFOSize,
      valueQueue = newFIFO space eventFIFOSize,
      outputEventQueue = newFIFO space eventFIFOSize,
      midiOutputMessages = [], numFramesProcessed = 0, currentMaxBlockSize = 0,
      hostOutput = hostMemory, midiOutputDelivered = [], dispatcherTriggers = 0\<rparr>"

subsection \<open>Sequencing with exceptions\<close>

text \<open>A step yields whether it completed and the state it leaves; a step that throws
  leaves the changes made before the throw.\<close>

definition andThen :: "bool \<times> 'w \<Rightarrow> ('w \<Rightarrow> bool \<times> 'w) \<Rightarrow> bool \<times> 'w" where
  "andThen r f = (if fst r then f (snd r) else r)"

fun runAll :: "('f \<Rightarrow> 'w \<Rightarrow> bool \<times> 'w) \<Rightarrow> 'f list \<Rightarrow> 'w \<Rightarrow> bool \<times> 'w" where
  "runAll run [] w = (True, w)"
| "runAll run (f # fs) w = andThen (run f w) (runAll run fs)"

definition logCall :: "'s performer_call \<Rightarrow> 's AudioMIDIPerformer \<Rightarrow> 's AudioMIDIPerformer" where
  "logCall c a = a\<lparr>performerCalls := performerCalls a @ [c]\<rparr>"

subsection \<open>Control-plane posts\<close>

text \<open>
  \<open>postEvent\<close> and \<open>postValue\<close> by handle. The coercion helper is a parameter: it yields
  nothing, or the type index and the bytes of the coerced value. The record size is
  computed in 32 bits; the writer always copies the whole value.
\<close>

definition postEvent ::
  "(EndpointHandle \<Rightarrow> 'v \<Rightarrow> (nat \<times> byte list) option) \<Rightarrow> EndpointHandle \<Rightarrow> 'v
     \<Rightarrow> 's AudioMIDIPerformer \<Rightarrow> bool \<times> 's AudioMIDIPerformer" where
  "postEvent coerceValueToMatchingType handle v a =
     (case coerceValueToMatchingType handle v of
        None \<Rightarrow> (False, a)
      | Some (coercedTypeIndex, coercedData) \<Rightarrow>
          (let typeIndex = (of_nat coercedTypeIndex :: 32 word);
               totalSize = (4 + 4 + length coercedData) mod 2 ^ 32;
               (ok, q) = push totalSize
                           (writeNativeEndian32 handle @ writeNativeEndian32 typeIndex @ coercedData)
                           (eventQueue a)
           in (ok, a\<lparr>eventQueue := q\<rparr>)))"

definition postValue ::
  "(EndpointHandle \<Rightarrow> 'v \<Rightarrow> byte list option) \<Rightarrow> EndpointHandle \<Rightarrow> 'v \<Rightarrow> 32 word
     \<Rightarrow> 's AudioMIDIPerformer \<Rightarrow> bool \<times> 's AudioMIDIPerformer" where
  "postValue coerceValue handle v framesToReachValue a =
     (case coerceValue handle v of
        None \<Rightarrow> (False, a)
      | Some coercedData \<Rightarrow>
          (let totalSize = (4 + 4 + length coercedData) mod 2 ^ 32;
               (ok, q) = push totalSize
                           (writeNativeEndian32 handle @ writeNativeEndian32 framesToReachValue
                              @ coercedData)
                           (valueQueue a)
           in (ok, a\<lparr>valueQueue := q\<rparr>)))"

subsection \<open>Start and stop\<close>

definition prepareToStart :: "'s AudioMIDIPerformer \<Rightarrow> bool \<times> 's AudioMIDIPerformer" where
  "prepareToStart a =
     (case engineCreatePerformer (engine a) of
        None \<Rightarrow> (False, a\<lparr>performer := None\<rparr>)
      | Some p \<Rightarrow>
          (True, a\<lparr>performer := Some p,
                    currentMaxBlockSize := min maxFramesPerBlock (getMaximumBlockSize p)\<rparr>))"

definition playbackStopped :: "'s AudioMIDIPerformer \<Rightarrow> 's AudioMIDIPerformer" where
  "playbackStopped a = a\<lparr>performer := None\<rparr>"

subsection \<open>Input: pre-render functions, queues, MIDI\<close>

text \<open>
  The input closure copies the mapped host input channels into the scratch buffer and hands
  it to \<open>setInputFrames\<close>; the call is recorded with the channels written. The two queue
  readers decode each record and pass it on; a record of at most 4 bytes fails their
  assertion, and the records not yet read stay queued.
\<close>

definition channelSamples :: "'s Block \<Rightarrow> nat \<Rightarrow> 's list" where
  "channelSamples block chan =
     map (\<lambda>j. inputSamples block chan (frameStart (audioInput block) + j))
         [0 ..< numFrames (audioInput block)]"

fun copyInputChannels :: "'s Block \<Rightarrow> nat \<Rightarrow> nat list \<Rightarrow> nat list \<Rightarrow> (nat \<times> 's list) list option" where
  "copyInputChannels block numChannelsInEndpoint endpointChannels [] = Some []"
| "copyInputChannels block numChannelsInEndpoint [] (i # inputChannels) = None"
| "copyInputChannels block numChannelsInEndpoint (e # endpointChannels) (i # inputChannels) =
     (if e < numChannelsInEndpoint \<and> i < numChannels (audioInput block)
      then map_option ((#) (e, channelSamples block i))
             (copyInputChannels block numChannelsInEndpoint endpointChannels inputChannels)
      else None)"

fun runPreRender :: "'s Block \<Rightarrow> preRenderFunction \<Rightarrow> 's AudioMIDIPerformer \<Rightarrow> bool \<times> 's AudioMIDIPerformer" where
  "runPreRender block (InputCopy endpointHandle numChannelsInEndpoint endpointChannels inputChannels) a =
     (case copyInputChannels block numChannelsInEndpoint endpointChannels inputChannels of
        None \<Rightarrow> (False, a)
      | Some written \<Rightarrow>
          (True, logCall (SetInputFrames endpointHandle written (numFrames (audioInput block))) a))"

fun handleEvents :: "byte list list \<Rightarrow> 's AudioMIDIPerformer \<Rightarrow> bool \<times> 's AudioMIDIPerformer" where
  "handleEvents [] a = (True, a)"
| "handleEvents (d # rest) a =
     (if length d > 4
      then handleEvents rest
             (logCall (AddInputEvent (readNativeEndian32 d) (readNativeEndian32 (drop 4 d)) (drop 8 d))
                (a\<lparr>eventQueue := (eventQueue a)\<lparr>fifoItems := rest\<rparr>\<rparr>))
      else (False, a))"

fun handleValues :: "byte list list \<Rightarrow> 's AudioMIDIPerformer \<Rightarrow> bool \<times> 's AudioMIDIPerformer" where
  "handleValues [] a = (True, a)"
| "handleValues (d # rest) a =
     (if length d > 4
      then handleValues rest
             (logCall (SetInputValue (readNativeEndian32 d) (drop 8 d) (readNativeEndian32 (drop 4 d)))
                (a\<lparr>valueQueue := (valueQueue a)\<lparr>fifoItems := rest\<rparr>\<rparr>))
      else (False, a))"

definition addMIDIInputs :: "'s Block \<Rightarrow> 's AudioMIDIPerformer \<Rightarrow> 's AudioMIDIPerformer" where
  "addMIDIInputs block a =
     (if midiInputEndpoints a \<noteq> []
      then fold (\<lambda>midiEvent a'.
                   fold (\<lambda>midiEndpoint. logCall (AddInputEventPacked midiEndpoint 0 (packMIDI midiEvent)))
                        (midiInputEndpoints a) a')
                (blockMidiMessages block) a
      else a)"

subsection \<open>MIDI output dispatch\<close>

text \<open>
  \<open>dispatchMIDIOutputEvents\<close>. The block's \<open>onMidiOutputMessage\<close> is a flag saying whether the
  host gave a callback; a call of the callback appends to \<open>midiOutputDelivered\<close>.
\<close>

fun collectMIDIEvents :: "OutputEvent list \<Rightarrow> 's AudioMIDIPerformer \<Rightarrow> bool \<times> 's AudioMIDIPerformer" where
  "collectMIDIEvents [] a = (True, a)"
| "collectMIDIEvents (e # es) a =
     (if length (eventData e) \<ge> 3
      then collectMIDIEvents es
             (a\<lparr>midiOutputMessages := midiOutputMessages a
                    @ [(packedMIDIDataToMessage (readNativeEndian32 (eventData e)), frameOffset e)]\<rparr>)
      else (False, a))"

definition iterateMIDIEndpoint ::
  "'s Performer \<Rightarrow> EndpointHandle \<Rightarrow> 's AudioMIDIPerformer \<Rightarrow> bool \<times> 's AudioMIDIPerformer" where
  "iterateMIDIEndpoint p endpointHandle a =
     collectMIDIEvents (outputEvents p (performerCalls a) endpointHandle)
       (logCall (IterateOutputEvents endpointHandle) a)"

text \<open>Modelled from the spec: \<open>choc::sorting::stable_sort\<close> belongs to the choc library,
  which is outside these files; a stable sort by frame offset is \<open>sort_key snd\<close>.\<close>

definition dispatchMIDIOutputEvents ::
  "'s Performer \<Rightarrow> 's Block \<Rightarrow> 's AudioMIDIPerformer \<Rightarrow> bool \<times> 's AudioMIDIPerformer" where
  "dispatchMIDIOutputEvents p block a =
     (if \<not> onMidiOutputMessage block then (True, a)
      else andThen (runAll (iterateMIDIEndpoint p) (midiOutputEndpoints a) a)
             (\<lambda>a'. if midiOutputMessages a' = [] then (True, a')
                    else (True, a'\<lparr>midiOutputDelivered := midiOutputDelivered a'
                                        @ map (\<lambda>m. (snd m, fst m)) (sort_key snd (midiOutputMessages a')),
                                     midiOutputMessages := []\<rparr>)))"


subsection \<open>Output: post-render functions\<close>

text \<open>
  Writes to host memory go through a view and touch only its frames. \<open>copy\<close> and \<open>add\<close>
  take a destination channel with \<open>getChannel\<close>, which asserts that the channel exists, and
  a source channel of the scratch buffer, likewise; \<open>getStart\<close> on the scratch buffer
  asserts that the block has at most \<open>maxFramesPerBlock\<close> frames. The samples the performer
  renders are \<open>outputFrames\<close> of the calls made before \<open>copyOutputFrames\<close>.
\<close>

definition writeChannel ::
  "ChannelArrayView \<Rightarrow> nat \<Rightarrow> (nat \<Rightarrow> 's) \<Rightarrow> (nat \<Rightarrow> nat \<Rightarrow> 's) \<Rightarrow> (nat \<Rightarrow> nat \<Rightarrow> 's)" where
  "writeChannel v chan samples mem =
     (\<lambda>c i. if c = chan \<and> frameStart v \<le> i \<and> i < frameStart v + numFrames v
            then samples (i - frameStart v) else mem c i)"

definition clearChannels ::
  "ChannelArrayView \<Rightarrow> nat \<Rightarrow> nat \<Rightarrow> (nat \<Rightarrow> nat \<Rightarrow> 's::zero) \<Rightarrow> (nat \<Rightarrow> nat \<Rightarrow> 's)" where
  "clearChannels v lo hi mem =
     (\<lambda>c i. if lo \<le> c \<and> c < hi \<and> frameStart v \<le> i \<and> i < frameStart v + numFrames v
            then 0 else mem c i)"

fun copyChannels ::
  "ChannelArrayView \<Rightarrow> nat \<Rightarrow> (nat \<Rightarrow> nat \<Rightarrow> 's) \<Rightarrow> ChannelMap list
     \<Rightarrow> (nat \<Rightarrow> nat \<Rightarrow> 's) \<Rightarrow> bool \<times> (nat \<Rightarrow> nat \<Rightarrow> 's)" where
  "copyChannels v numSourceChannels src [] mem = (True, mem)"
| "copyChannels v numSourceChannels src (c # cs) mem =
     (if dest c < numChannels v \<and> source c < numSourceChannels
      then copyChannels v numSourceChannels src cs (writeChannel v (dest c) (src (source c)) mem)
      else (False, mem))"

fun addChannels ::
  "ChannelArrayView \<Rightarrow> nat \<Rightarrow> (nat \<Rightarrow> nat \<Rightarrow> 's::plus) \<Rightarrow> ChannelMap list
     \<Rightarrow> (nat \<Rightarrow> nat \<Rightarrow> 's) \<Rightarrow> bool \<times> (nat \<Rightarrow> nat \<Rightarrow> 's)" where
  "addChannels v numSourceChannels src [] mem = (True, mem)"
| "addChannels v numSourceChannels src (c # cs) mem =
     (if dest c < numChannels v \<and> source c < numSourceChannels
      then addChannels v numSourceChannels src cs
             (writeChannel v (dest c)
                (\<lambda>j. mem (dest c) (frameStart v + j) + src (source c) j) mem)
      else (False, mem))"

fun clearListed ::
  "ChannelArrayView \<Rightarrow> nat list \<Rightarrow> (nat \<Rightarrow> nat \<Rightarrow> 's::zero) \<Rightarrow> bool \<times> (nat \<Rightarrow> nat \<Rightarrow> 's)" where
  "clearListed v [] mem = (True, mem)"
| "clearListed v (chan # chans) mem =
     (if chan < numChannels v
      then clearListed v chans (clearChannels v chan (chan + 1) mem)
      else (False, mem))"

fun duplicateFirst ::
  "ChannelArrayView \<Rightarrow> nat \<Rightarrow> ChannelMap list \<Rightarrow> (nat \<Rightarrow> nat \<Rightarrow> 's) \<Rightarrow> (nat \<Rightarrow> nat \<Rightarrow> 's)" where
  "duplicateFirst v firstIndex [] mem = mem"
| "duplicateFirst v firstIndex (c # cs) mem =
     duplicateFirst v firstIndex cs
       (if dest c < numChannels v
        then writeChannel v (dest c) (\<lambda>j. mem firstIndex (frameStart v + j)) mem
        else mem)"

definition clearAbove ::
  "ChannelArrayView \<Rightarrow> nat \<Rightarrow> (nat \<Rightarrow> nat \<Rightarrow> 's::zero) \<Rightarrow> (nat \<Rightarrow> nat \<Rightarrow> 's)" where
  "clearAbove v highestUsedChannel mem =
     (let totalChans = numChannels v
      in if totalChans > highestUsedChannel
         then clearChannels v highestUsedChannel totalChans mem else mem)"

fun runPostRender ::
  "'s Performer \<Rightarrow> 's Block \<Rightarrow> postRenderFunction \<Rightarrow> 's::{zero,plus} AudioMIDIPerformer
     \<Rightarrow> bool \<times> 's AudioMIDIPerformer" where
  "runPostRender p block (OutputAdd endpointHandle numChannelsInEndpoint allMappings) a =
     (let out = audioOutput block in
      if numFrames out > maxFramesPerBlock then (False, a)
      else (let src = outputFrames p (performerCalls a) endpointHandle;
                a' = logCall (CopyOutputFrames endpointHandle numChannelsInEndpoint (numFrames out)) a;
                (ok, mem) = addChannels out numChannelsInEndpoint src allMappings (hostOutput a')
            in (ok, a'\<lparr>hostOutput := mem\<rparr>)))"
| "runPostRender p block (OutputReplaceOne endpointHandle destChannel) a =
     (let out = audioOutput block in
      if \<not> destChannel < numChannels out then (False, a)
      else (let src = outputFrames p (performerCalls a) endpointHandle;
                a' = logCall (CopyOutputFrames endpointHandle 1 (numFrames out)) a
            in (True, a'\<lparr>hostOutput := writeChannel out destChannel (src 0) (hostOutput a')\<rparr>)))"
| "runPostRender p block (OutputReplaceFanOut endpointHandle channelsToOverwrite) a =
     (case channelsToOverwrite of
        [] \<Rightarrow> (False, a)
      | front # others \<Rightarrow>
          (let out = audioOutput block;
               firstIndex = dest front;
               numOutChans = numChannels out
           in if firstIndex < numOutChans
              then (let src = outputFrames p (performerCalls a) endpointHandle;
                        a' = logCall (CopyOutputFrames endpointHandle 1 (numFrames out)) a;
                        mem = writeChannel out firstIndex (src 0) (hostOutput a')
                    in (True, a'\<lparr>hostOutput := duplicateFirst out firstIndex others mem\<rparr>))
              else (True, a)))"
| "runPostRender p block
     (OutputReplaceViaScratch endpointHandle numChannelsInEndpoint channelsToOverwrite channelsToAddTo) a =
     (let out = audioOutput block in
      if numFrames out > maxFramesPerBlock then (False, a)
      else (let src = outputFrames p (performerCalls a) endpointHandle;
                a' = logCall (CopyOutputFrames endpointHandle numChannelsInEndpoint (numFrames out)) a;
                (ok, mem) = copyChannels out numChannelsInEndpoint src channelsToOverwrite (hostOutput a')
            in if \<not> ok then (False, a'\<lparr>hostOutput := mem\<rparr>)
               else (let (ok', mem') = addChannels out numChannelsInEndpoint src channelsToAddTo mem
                     in (ok', a'\<lparr>hostOutput := mem'\<rparr>))))"
| "runPostRender p block ClearAll a =
     (let out = audioOutput block
      in (True, a\<lparr>hostOutput := clearChannels out 0 (numChannels out) (hostOutput a)\<rparr>))"
| "runPostRender p block (ClearAbove highestUsedChannel) a =
     (True, a\<lparr>hostOutput := clearAbove (audioOutput block) highestUsedChannel (hostOutput a)\<rparr>)"
| "runPostRender p block (ClearChannelsAndAbove channelsToClear highestUsedChannel) a =
     (let out = audioOutput block;
          (ok, mem) = clearListed out channelsToClear (hostOutput a)
      in if \<not> ok then (False, a\<lparr>hostOutput := mem\<rparr>)
         else (True, a\<lparr>hostOutput := clearAbove out highestUsedChannel mem\<rparr>))"

subsection \<open>Outbound event capture\<close>

text \<open>\<open>moveOutputEventToQueue\<close> triggers the dispatcher whether or not the push went
  through, and returns the outcome of the push.\<close>

definition moveOutputEventToQueue ::
  "EndpointHandle \<Rightarrow> 32 word \<Rightarrow> 32 word \<Rightarrow> byte list \<Rightarrow> 's AudioMIDIPerformer
     \<Rightarrow> bool \<times> 's AudioMIDIPerformer" where
  "moveOutputEventToQueue handle typeIndex eventFrameOffset valueData a =
     (let frame = numFramesProcessed a + ucast eventFrameOffset;
          totalSize = (4 + 4 + 8 + length valueData) mod 2 ^ 32;
          (ok, q) = push totalSize
                      (writeNativeEndian32 handle @ writeNativeEndian32 typeIndex
                         @ writeNativeEndian64 frame @ valueData)
                      (outputEventQueue a)
      in (ok, a\<lparr>outputEventQueue := q, dispatcherTriggers := dispatcherTriggers a + 1\<rparr>))"

text \<open>Modelled from the spec: \<open>iterateOutputEvents (handle, visitor \<rightarrow> continue)\<close> visits the
  endpoint's events in emission order for as long as the visitor answers true.\<close>

fun iterateOutputEvents ::
  "(OutputEvent \<Rightarrow> 'w \<Rightarrow> bool \<times> 'w) \<Rightarrow> OutputEvent list \<Rightarrow> 'w \<Rightarrow> 'w" where
  "iterateOutputEvents visitor [] w = w"
| "iterateOutputEvents visitor (e # es) w =
     (case visitor e w of (continue, w') \<Rightarrow>
        if continue then iterateOutputEvents visitor es w' else w')"

definition moveOutputEventsToQueue :: "'s Performer \<Rightarrow> 's AudioMIDIPerformer \<Rightarrow> 's AudioMIDIPerformer" where
  "moveOutputEventsToQueue p a =
     fold (\<lambda>handle a'.
             iterateOutputEvents
               (\<lambda>e. moveOutputEventToQueue (fst handle) (dataTypeIndex e) (frameOffset e) (eventData e))
               (outputEvents p (performerCalls a') (fst handle))
               (logCall (IterateOutputEvents (fst handle)) a'))
          (eventOutputHandles a) a"

subsection \<open>\<open>process\<close>\<close>

text \<open>
  \<open>processBlock\<close> is the body of \<open>process\<close> for a block that is not split: the statements
  from \<open>setBlockSize\<close> to the increment of \<open>numFramesProcessed\<close>, in order. \<open>processFrom\<close>
  is \<open>process\<close> itself, with the loop over the sub-blocks as a second entry point:
  \<open>Enter\<close> is a call of \<open>process\<close>, \<open>Loop start\<close> is the loop with its counter at \<open>start\<close>.
  The loop need not end (with a maximum block size of 0 it does not), so the result is an
  option and \<open>None\<close> means that the call does not return.
\<close>

definition processBlock ::
  "'s Performer \<Rightarrow> 's Block \<Rightarrow> bool \<Rightarrow> 's::{zero,plus} AudioMIDIPerformer
     \<Rightarrow> bool \<times> 's AudioMIDIPerformer" where
  "processBlock p block replaceOutput a =
     (let frames = numFrames (audioOutput block) in
      andThen (True, logCall (SetBlockSize frames) a) (\<lambda>a.
      andThen (runAll (runPreRender block) (preRenderFunctions a) a) (\<lambda>a.
      andThen (handleEvents (fifoItems (eventQueue a)) a) (\<lambda>a.
      andThen (handleValues (fifoItems (valueQueue a)) a) (\<lambda>a.
      andThen (True, logCall Advance (addMIDIInputs block a)) (\<lambda>a.
      andThen (dispatchMIDIOutputEvents p block a) (\<lambda>a.
      andThen (runAll (runPostRender p block)
                 (if replaceOutput then postRenderReplaceFunctions a else postRenderAddFunctions a) a) (\<lambda>a.
      (True, (moveOutputEventsToQueue p a)
               \<lparr>numFramesProcessed := numFramesProcessed (moveOutputEventsToQueue p a)
                                         + of_nat frames\<rparr>)))))))))"

definition subBlock :: "'s Block \<Rightarrow> nat \<Rightarrow> nat \<Rightarrow> 's Block option" where
  "subBlock block start numToDo =
     (case (getFrameRange (audioInput block) (start, start + numToDo),
            getFrameRange (audioOutput block) (start, start + numToDo)) of
        (Some i, Some out) \<Rightarrow>
          Some (block\<lparr>audioInput := i, audioOutput := out,
                      blockMidiMessages := (if start = 0 then blockMidiMessages block else [])\<rparr>)
      | _ \<Rightarrow> None)"

datatype entry = Enter | Loop nat

partial_function (option) processFrom ::
  "entry \<Rightarrow> 's Block \<Rightarrow> bool \<Rightarrow> 's::{zero,plus} AudioMIDIPerformer
     \<Rightarrow> (bool \<times> 's AudioMIDIPerformer) option" where
  "processFrom at block replaceOutput a =
     (case at of
        Enter \<Rightarrow>
          (case performer a of
             None \<Rightarrow> Some (False, a)
           | Some p \<Rightarrow>
               if numFrames (audioOutput block) > currentMaxBlockSize a
               then processFrom (Loop 0) block replaceOutput a
               else Some (processBlock p block replaceOutput a))
      | Loop start \<Rightarrow>
          (if start < numFrames (audioOutput block)
           then (let numToDo = min (currentMaxBlockSize a) (numFrames (audioOutput block) - start)
                 in case subBlock block start numToDo of
                      None \<Rightarrow> Some (False, a)
                    | Some sub \<Rightarrow>
                        Option.bind (processFrom Enter sub replaceOutput a)
                          (\<lambda>r. if \<not> fst r then Some (False, snd r)
                               else processFrom (Loop (start + numToDo)) block replaceOutput (snd r)))
           else Some (True, a)))"

definition process ::
  "'s Block \<Rightarrow> bool \<Rightarrow> 's::{zero,plus} AudioMIDIPerformer \<Rightarrow> (bool \<times> 's AudioMIDIPerformer) option" where
  "process block replaceOutput a = processFrom Enter block replaceOutput a"


subsection \<open>The routing builder\<close>

text \<open>
  The builder holds the harness under construction and the vector of used output channels.
  Its constructor sizes the vector from the output endpoints of the engine value it reads
  in its body; only the initial length of the all-false vector depends on that. A failed
  size assertion of a connect function, and a destination channel of \<open>2^32 - 1\<close> (for
  which \<open>dest + 1\<close> wraps to 0 and the vector is indexed out of range), make the result
  \<open>None\<close>.
\<close>

record 's Builder =
  result :: "'s AudioMIDIPerformer"
  audioOutputChannelsUsed :: "bool list"

definition countTotalAudioChannels :: "EndpointDetails list \<Rightarrow> nat" where
  "countTotalAudioChannels endpoints =
     fold (\<lambda>e tot. (tot + getNumFloatChannelsInStream e) mod 2 ^ 32) endpoints 0"

definition newBuilder ::
  "'s Engine \<Rightarrow> (nat \<Rightarrow> byte list list \<Rightarrow> nat \<Rightarrow> bool) \<Rightarrow> nat \<Rightarrow> (nat \<Rightarrow> nat \<Rightarrow> 's) \<Rightarrow> 's Builder" where
  "newBuilder e space eventFIFOSize hostMemory =
     \<lparr>result = newAudioMIDIPerformer e space eventFIFOSize hostMemory,
      audioOutputChannelsUsed = replicate (countTotalAudioChannels (getOutputEndpoints e)) False\<rparr>"

fun classifyChannels ::
  "nat list \<Rightarrow> nat list \<Rightarrow> bool list
     \<Rightarrow> ((ChannelMap list \<times> ChannelMap list \<times> ChannelMap list) \<times> bool list) option" where
  "classifyChannels [] outputChannels used = Some (([], [], []), used)"
| "classifyChannels (src # endpointChannels) [] used = None"
| "classifyChannels (src # endpointChannels) (d # outputChannels) used =
     (if d + 1 \<ge> 2 ^ 32 then None
      else (let used1 = (if length used \<le> d
                         then used @ replicate (d + 1 - length used) False else used);
                c = \<lparr>source = src, dest = d\<rparr>
            in if used1 ! d
               then map_option
                      (\<lambda>((channelsToOverwrite, channelsToAddTo, allMappings), u).
                          ((channelsToOverwrite, c # channelsToAddTo, c # allMappings), u))
                      (classifyChannels endpointChannels outputChannels used1)
               else map_option
                      (\<lambda>((channelsToOverwrite, channelsToAddTo, allMappings), u).
                          ((c # channelsToOverwrite, channelsToAddTo, c # allMappings), u))
                      (classifyChannels endpointChannels outputChannels (used1[d := True]))))"

definition addOutputCopyFunction ::
  "EndpointHandle \<Rightarrow> nat \<Rightarrow> nat list \<Rightarrow> nat list \<Rightarrow> 's Builder \<Rightarrow> 's Builder option" where
  "addOutputCopyFunction endpointHandle numChannelsInEndpoint endpointChannels outputChannels b =
     (if length endpointChannels \<noteq> length outputChannels then None
      else if endpointChannels = [] then Some b
      else (case classifyChannels endpointChannels outputChannels (audioOutputChannelsUsed b) of
              None \<Rightarrow> None
            | Some ((channelsToOverwrite, channelsToAddTo, allMappings), used) \<Rightarrow>
                (let r = result b;
                     r1 = r\<lparr>postRenderAddFunctions := postRenderAddFunctions r
                             @ [OutputAdd endpointHandle numChannelsInEndpoint allMappings]\<rparr>;
                     replaceFunction =
                       (if numChannelsInEndpoint = 1 \<and> channelsToAddTo = []
                        then (if length channelsToOverwrite = 1
                              then OutputReplaceOne endpointHandle (dest (hd channelsToOverwrite))
                              else OutputReplaceFanOut endpointHandle channelsToOverwrite)
                        else OutputReplaceViaScratch endpointHandle numChannelsInEndpoint
                               channelsToOverwrite channelsToAddTo);
                     r2 = r1\<lparr>postRenderReplaceFunctions := postRenderReplaceFunctions r1
                              @ [replaceFunction]\<rparr>
                 in Some (b\<lparr>result := r2, audioOutputChannelsUsed := used\<rparr>))))"

definition connectAudioOutputTo ::
  "EndpointDetails \<Rightarrow> nat list \<Rightarrow> nat list \<Rightarrow> 's Builder \<Rightarrow> (bool \<times> 's Builder) option" where
  "connectAudioOutputTo endpoint endpointChannels outputChannels b =
     (if length outputChannels \<noteq> length endpointChannels then None
      else (let numChannelsInEndpoint = getNumFloatChannelsInStream endpoint
            in if numChannelsInEndpoint \<noteq> 0
               then map_option (Pair True)
                      (addOutputCopyFunction (getEndpointHandle (engine (result b)) (endpointID endpoint))
                         numChannelsInEndpoint endpointChannels outputChannels b)
               else Some (False, b)))"

definition connectAudioInputTo ::
  "nat list \<Rightarrow> EndpointDetails \<Rightarrow> nat list \<Rightarrow> 's Builder \<Rightarrow> (bool \<times> 's Builder) option" where
  "connectAudioInputTo inputChannels endpoint endpointChannels b =
     (if length inputChannels \<noteq> length endpointChannels then None
      else (let numChannelsInEndpoint = getNumFloatChannelsInStream endpoint
            in if numChannelsInEndpoint \<noteq> 0
               then (let r = result b
                     in Some (True, b\<lparr>result := r\<lparr>preRenderFunctions := preRenderFunctions r
                                @ [InputCopy (getEndpointHandle (engine r) (endpointID endpoint))
                                     numChannelsInEndpoint endpointChannels inputChannels]\<rparr>\<rparr>))
               else Some (False, b)))"

definition connectMIDIInputTo :: "EndpointDetails \<Rightarrow> 's Builder \<Rightarrow> bool \<times> 's Builder" where
  "connectMIDIInputTo endpoint b =
     (if isMIDI endpoint
      then (let r = result b
            in (True, b\<lparr>result := r\<lparr>midiInputEndpoints := midiInputEndpoints r
                         @ [getEndpointHandle (engine r) (endpointID endpoint)]\<rparr>\<rparr>))
      else (False, b))"

definition connectMIDIOutputTo :: "EndpointDetails \<Rightarrow> 's Builder \<Rightarrow> bool \<times> 's Builder" where
  "connectMIDIOutputTo endpoint b =
     (if isMIDI endpoint
      then (let r = result b
            in (True, b\<lparr>result := r\<lparr>midiOutputEndpoints := midiOutputEndpoints r
                         @ [getEndpointHandle (engine r) (endpointID endpoint)]\<rparr>\<rparr>))
      else (False, b))"

definition setEventOutputHandler :: "bool \<Rightarrow> 's Builder \<Rightarrow> (bool \<times> 's Builder) option" where
  "setEventOutputHandler callback b =
     (let r = result b in
      if eventOutputHandles r \<noteq> [] then None
      else (let handles = concat (map (\<lambda>endpointDetails.
                              if endpointType endpointDetails = event_endpoint
                                 \<and> getEndpointHandle (engine r) (endpointID endpointDetails) \<noteq> 0
                              then [(getEndpointHandle (engine r) (endpointID endpointDetails),
                                     endpointID endpointDetails)]
                              else [])
                            (getOutputEndpoints (engine r)))
            in Some (callback \<and> handles \<noteq> [],
                     b\<lparr>result := r\<lparr>eventOutputHandles := handles\<rparr>\<rparr>)))"

definition highestUsedChannel :: "bool list \<Rightarrow> nat" where
  "highestUsedChannel used = fold (\<lambda>i h. if used ! i then i + 1 else h) [0 ..< length used] 0"

definition outputChannelClearAction :: "bool list \<Rightarrow> postRenderFunction" where
  "outputChannelClearAction used =
     (let h = highestUsedChannel used
      in if h = 0 then ClearAll
         else (let channelsToClear = filter (\<lambda>i. \<not> used ! i) [0 ..< h]
               in if channelsToClear = [] then ClearAbove h
                  else ClearChannelsAndAbove channelsToClear h))"

definition createOutputChannelClearAction :: "'s Builder \<Rightarrow> 's Builder" where
  "createOutputChannelClearAction b =
     (let r = result b
      in b\<lparr>result := r\<lparr>postRenderReplaceFunctions := postRenderReplaceFunctions r
                   @ [outputChannelClearAction (audioOutputChannelsUsed b)]\<rparr>\<rparr>)"

definition createPerformer :: "'s Builder \<Rightarrow> 's AudioMIDIPerformer" where
  "createPerformer b = result (createOutputChannelClearAction b)"

subsection \<open>Notions used to state the harness properties\<close>

text \<open>
  \<open>advances\<close> counts the calls of \<open>advance\<close> made so far. \<open>routing\<close> is what the builder and
  \<open>prepareToStart\<close> set up and \<open>process\<close> only reads. \<open>inFrames v i\<close>: frame \<open>i\<close> of the host
  memory lies in the view \<open>v\<close>. The three stage functions are the leading statements of
  \<open>processBlock\<close>: up to the queue readers, up to the MIDI dispatch, and up to the
  post-render functions. \<open>subBlocks\<close> is the splitting as the specification words it;
  \<open>processSubBlock\<close> is one turn of the loop of \<open>process\<close>. \<open>processCalls\<close> makes a sequence
  of calls of \<open>process\<close> and collects the states they leave. \<open>eventRecord\<close> and
  \<open>outputEventRecord\<close> are the layouts of the queued records. \<open>midiEventsCollected\<close> is what
  the MIDI output endpoints emit, in the order of collection. \<open>moveToQueue\<close> is the visitor
  of \<open>moveOutputEventsToQueue\<close>; \<open>outputEventsFit\<close> says that the queue admits each of a
  list of events in turn. \<open>unusedChannel\<close>: the channel is not marked in the vector of used
  channels. \<open>classifyFirstSeen\<close> is the classification as the specification words it: a
  mapping adds if its destination has been seen, and overwrites otherwise.
\<close>

definition advances :: "'s AudioMIDIPerformer \<Rightarrow> nat" where
  "advances a = length (filter (\<lambda>c. c = Advance) (performerCalls a))"

definition routing where
  "routing a = (performer a, currentMaxBlockSize a, preRenderFunctions a,
                postRenderReplaceFunctions a, postRenderAddFunctions a,
                midiInputEndpoints a, midiOutputEndpoints a, eventOutputHandles a)"

definition steady where
  "steady a = (routing a, numFramesProcessed a, advances a)"

definition inFrames :: "ChannelArrayView \<Rightarrow> nat \<Rightarrow> bool" where
  "inFrames v i = (frameStart v \<le> i \<and> i < frameStart v + numFrames v)"

definition stagesBeforeCapture ::
  "'s Performer \<Rightarrow> 's Block \<Rightarrow> bool \<Rightarrow> 's::{zero,plus} AudioMIDIPerformer
     \<Rightarrow> bool \<times> 's AudioMIDIPerformer" where
  "stagesBeforeCapture p block replaceOutput a =
     (let frames = numFrames (audioOutput block) in
      andThen (True, logCall (SetBlockSize frames) a) (\<lambda>a.
      andThen (runAll (runPreRender block) (preRenderFunctions a) a) (\<lambda>a.
      andThen (handleEvents (fifoItems (eventQueue a)) a) (\<lambda>a.
      andThen (handleValues (fifoItems (valueQueue a)) a) (\<lambda>a.
      andThen (True, logCall Advance (addMIDIInputs block a)) (\<lambda>a.
      andThen (dispatchMIDIOutputEvents p block a) (\<lambda>a.
      runAll (runPostRender p block)
                 (if replaceOutput then postRenderReplaceFunctions a else postRenderAddFunctions a) a)))))))"

definition eventRecord :: "EndpointHandle \<Rightarrow> 32 word \<Rightarrow> byte list \<Rightarrow> byte list" where
  "eventRecord handle typeIndex bytes =
     writeNativeEndian32 handle @ writeNativeEndian32 typeIndex @ bytes"

definition midiOutputMessage :: "OutputEvent \<Rightarrow> ShortMessage \<times> 32 word" where
  "midiOutputMessage e = (packedMIDIDataToMessage (readNativeEndian32 (eventData e)), frameOffset e)"

fun midiEventsCollected ::
  "'s Performer \<Rightarrow> EndpointHandle list \<Rightarrow> 's performer_call list \<Rightarrow> (ShortMessage \<times> 32 word) list" where
  "midiEventsCollected p [] calls = []"
| "midiEventsCollected p (h # hs) calls =
     map midiOutputMessage (outputEvents p calls h)
       @ midiEventsCollected p hs (calls @ [IterateOutputEvents h])"

definition outputEventRecord :: "EndpointHandle \<Rightarrow> 64 word \<Rightarrow> OutputEvent \<Rightarrow> byte list" where
  "outputEventRecord handle framesProcessed e =
     writeNativeEndian32 handle @ writeNativeEndian32 (dataTypeIndex e)
       @ writeNativeEndian64 (framesProcessed + ucast (frameOffset e)) @ eventData e"

definition outputEventFits :: "OutputEvent \<Rightarrow> 's AudioMIDIPerformer \<Rightarrow> bool" where
  "outputEventFits e a =
     hasSpaceFor (outputEventQueue a) (fifoItems (outputEventQueue a))
       ((16 + length (eventData e)) mod 2 ^ 32)"

definition queued :: "'s AudioMIDIPerformer \<Rightarrow> byte list list" where
  "queued a = fifoItems (outputEventQueue a)"

definition inputStages ::
  "'s Block \<Rightarrow> 's AudioMIDIPerformer \<Rightarrow> bool \<times> 's AudioMIDIPerformer" where
  "inputStages block a =
     (let frames = numFrames (audioOutput block) in
      andThen (True, logCall (SetBlockSize frames) a) (\<lambda>a.
      andThen (runAll (runPreRender block) (preRenderFunctions a) a) (\<lambda>a.
      andThen (handleEvents (fifoItems (eventQueue a)) a) (\<lambda>a.
      handleValues (fifoItems (valueQueue a)) a))))"

definition stagesBeforeOutput ::
  "'s Performer \<Rightarrow> 's Block \<Rightarrow> 's AudioMIDIPerformer \<Rightarrow> bool \<times> 's AudioMIDIPerformer" where
  "stagesBeforeOutput p block a =
     andThen (inputStages block a) (\<lambda>a.
       dispatchMIDIOutputEvents p block (logCall Advance (addMIDIInputs block a)))"



definition processSubBlock ::
  "'s Performer \<Rightarrow> 's Block \<Rightarrow> bool \<Rightarrow> nat \<Rightarrow> nat \<Rightarrow> 's::{zero,plus} AudioMIDIPerformer
     \<Rightarrow> bool \<times> 's AudioMIDIPerformer" where
  "processSubBlock p block replaceOutput M k a =
     (case subBlock block (k * M) (min M (numFrames (audioOutput block) - k * M)) of
        None \<Rightarrow> (False, a)
      | Some sub \<Rightarrow> processBlock p sub replaceOutput a)"


definition moveToQueue ::
  "EndpointHandle \<Rightarrow> OutputEvent \<Rightarrow> 's AudioMIDIPerformer \<Rightarrow> bool \<times> 's AudioMIDIPerformer" where
  "moveToQueue h e = moveOutputEventToQueue h (dataTypeIndex e) (frameOffset e) (eventData e)"

fun outputEventsFit :: "EndpointHandle \<Rightarrow> OutputEvent list \<Rightarrow> 's AudioMIDIPerformer \<Rightarrow> bool" where
  "outputEventsFit h [] a = True"
| "outputEventsFit h (e # es) a =
     (outputEventFits e a \<and> outputEventsFit h es (snd (moveToQueue h e a)))"

definition unusedChannel :: "bool list \<Rightarrow> nat \<Rightarrow> bool" where
  "unusedChannel used c = (\<not> (c < length used \<and> used ! c))"

definition entryFrames :: "entry \<Rightarrow> ChannelArrayView \<Rightarrow> nat \<Rightarrow> bool" where
  "entryFrames at out i =
     (case at of
        Enter \<Rightarrow> inFrames out i
      | Loop start \<Rightarrow> frameStart out + start \<le> i \<and> i < frameStart out + numFrames out)"

definition clearsWithin ::
  "postRenderFunction list \<Rightarrow> bool list \<Rightarrow> entry \<Rightarrow> 's Block \<Rightarrow> bool \<Rightarrow> 's::{zero,plus} AudioMIDIPerformer
     \<Rightarrow> bool \<times> 's AudioMIDIPerformer \<Rightarrow> bool" where
  "clearsWithin fns used at block r a res =
     (routing (snd res) = routing a
      \<and> (\<forall>c i. \<not> entryFrames at (audioOutput block) i \<longrightarrow>
                    hostOutput (snd res) c i = hostOutput a c i)
      \<and> (r \<and> fst res \<and> postRenderReplaceFunctions a = fns @ [outputChannelClearAction used] \<longrightarrow>
            (\<forall>c i. entryFrames at (audioOutput block) i \<and> c < numChannels (audioOutput block)
                     \<and> unusedChannel used c \<longrightarrow> hostOutput (snd res) c i = 0)))"

definition usedSet :: "bool list \<Rightarrow> nat set" where
  "usedSet used = set (filter (\<lambda>c. used ! c) [0 ..< length used])"

fun classifyFirstSeen :: "nat set \<Rightarrow> ChannelMap list \<Rightarrow> ChannelMap list \<times> ChannelMap list" where
  "classifyFirstSeen seen [] = ([], [])"
| "classifyFirstSeen seen (c # cs) =
     (case classifyFirstSeen (insert (dest c) seen) cs of
        (overwrite, add) \<Rightarrow>
          if dest c \<in> seen then (overwrite, c # add) else (c # overwrite, add))"

subsection \<open>An example engine and its harnesses\<close>

text \<open>
  A performer with a maximum block size of 2 that renders the sample 10 on endpoint 1 and 1
  on every other endpoint, emits four events on endpoint 3 and two MIDI events each on
  endpoints 4 and 5; queues that admit items up to a total number of bytes; host memory
  that holds 100 everywhere.
\<close>

definition exampleSpace :: "nat \<Rightarrow> byte list list \<Rightarrow> nat \<Rightarrow> bool" where
  "exampleSpace capacity items n = (sum_list (map length items) + n \<le> capacity)"

definition monoStream :: "string \<Rightarrow> EndpointDetails" where
  "monoStream name =
     \<lparr>endpointID = name, endpointType = stream_endpoint, dataTypes = [float32_type], isMIDI = False\<rparr>"

definition eventEndpoint :: "string \<Rightarrow> bool \<Rightarrow> EndpointDetails" where
  "eventEndpoint name midi =
     \<lparr>endpointID = name, endpointType = event_endpoint, dataTypes = [other_type], isMIDI = midi\<rparr>"

definition exampleEvent :: "32 word \<Rightarrow> byte list \<Rightarrow> OutputEvent" where
  "exampleEvent offset bytes = \<lparr>dataTypeIndex = 0, frameOffset = offset, eventData = bytes\<rparr>"

definition exampleEvents :: "OutputEvent list" where
  "exampleEvents =
     [exampleEvent 0 [1, 1, 1, 1], exampleEvent 0 [2, 2, 2, 2],
      exampleEvent 1 [3, 3, 3, 3, 3, 3, 3, 3, 3, 3, 3, 3], exampleEvent 1 [4, 4, 4, 4]]"

definition examplePerformer :: "nat Performer" where
  "examplePerformer =
     \<lparr>getMaximumBlockSize = 2, getEventBufferSize = 8,
      outputFrames = (\<lambda>calls h chan frame. if h = 1 then 10 else 1),
      outputEvents = (\<lambda>calls h.
         if h = 3 then exampleEvents
         else if h = 4 then [exampleEvent 5 [64, 60, 144, 0], exampleEvent 1 [0, 60, 128, 0]]
         else if h = 5 then [exampleEvent 1 [64, 62, 144, 0], exampleEvent 3 [0, 62, 128, 0]]
         else [])\<rparr>"

definition exampleEngine :: "nat Engine" where
  "exampleEngine =
     \<lparr>engineCreatePerformer = Some examplePerformer,
      getEndpointHandle = (\<lambda>name. if name = ''a'' then 1 else if name = ''b'' then 2
                                  else if name = ''ev'' then 3 else if name = ''m1'' then 4
                                  else if name = ''m2'' then 5 else 0),
      getOutputEndpoints = [monoStream ''a'', monoStream ''b'', eventEndpoint ''ev'' False]\<rparr>"

definition exampleBuilder :: "nat Builder" where
  "exampleBuilder = newBuilder exampleEngine exampleSpace 60 (\<lambda>c i. 100)"

definition exampleBlock :: "nat \<Rightarrow> nat \<Rightarrow> bool \<Rightarrow> nat Block" where
  "exampleBlock channels frames midiOut =
     \<lparr>inputSamples = (\<lambda>c i. 0),
      audioInput = \<lparr>frameStart = 0, numChannels = 0, numFrames = frames\<rparr>,
      audioOutput = \<lparr>frameStart = 0, numChannels = channels, numFrames = frames\<rparr>,
      blockMidiMessages = [ShortMessage 144 60 64], onMidiOutputMessage = midiOut\<rparr>"

definition started :: "'s Builder \<Rightarrow> 's AudioMIDIPerformer" where
  "started b = snd (prepareToStart (createPerformer b))"

definition overlapBuilder :: "nat Builder option" where
  "overlapBuilder =
     Option.bind (connectAudioOutputTo (monoStream ''a'') [0, 0] [1, 0] exampleBuilder)
       (\<lambda>r1. map_option snd (connectAudioOutputTo (monoStream ''b'') [0] [0] (snd r1)))"

definition singleBuilder :: "nat Builder option" where
  "singleBuilder = map_option snd (connectAudioOutputTo (monoStream ''a'') [0] [0] exampleBuilder)"

definition offsetBuilder :: "nat Builder option" where
  "offsetBuilder = map_option snd (connectAudioOutputTo (monoStream ''a'') [0] [1] exampleBuilder)"

definition midiBuilder :: "nat Builder" where
  "midiBuilder = snd (connectMIDIOutputTo (eventEndpoint ''m2'' True)
                   (snd (connectMIDIOutputTo (eventEndpoint ''m1'' True) exampleBuilder)))"

definition eventBuilder :: "nat Builder option" where
  "eventBuilder = map_option snd (setEventOutputHandler True exampleBuilder)"

definition exampleCoerce :: "EndpointHandle \<Rightarrow> bool \<Rightarrow> (nat \<times> byte list) option" where
  "exampleCoerce h v = (if v then Some (5, [1, 2]) else None)"

definition smallQueues :: "nat AudioMIDIPerformer" where
  "smallQueues = newAudioMIDIPerformer exampleEngine exampleSpace 16 (\<lambda>c i. 0)"

section \<open>Properties of the file cache store\<close>

lemma fst_set_collectFiles:
  "fst ` set (collectFiles entries fs) = set entries \<inter> cacheFiles fs"
  by (induction entries) (auto simp: cacheFiles_def split: option.splits)

lemma snd_collectFiles:
  "(n, t) \<in> set (collectFiles entries fs) \<Longrightarrow> t = mtimeOf fs n"
  by (induction entries) (auto simp: mtimeOf_def split: option.splits if_splits)

lemma distinct_collectFiles:
  "distinct entries \<Longrightarrow> distinct (map fst (collectFiles entries fs))"
proof (induction entries)
  case Nil
  then show ?case by simp
next
  case (Cons n ns)
  have "n \<notin> fst ` set (collectFiles ns fs)"
    using Cons.prems by (simp add: fst_set_collectFiles)
  with Cons show ?case
    by (auto split: option.splits)
qed

lemma removeFiles_apply:
  "removeFiles removable names fs n = (if n \<in> set names \<and> removable n then None else fs n)"
  unfolding removeFiles_def by (induction names arbitrary: fs) auto


lemma sorted_take_drop:
  assumes "sorted (map f xs)" "x \<in> set (take k xs)" "y \<in> set (drop k xs)"
  shows "f x \<le> f y"
proof -
  have "sorted (map f (take k xs) @ map f (drop k xs))"
    using assms(1) by (simp flip: map_append)
  then show ?thesis
    using assms(2,3) by (auto simp: sorted_append)
qed

lemma distinct_fst_take_drop:
  assumes "distinct (map fst xs)"
  shows "fst ` set (take k xs) \<inter> fst ` set (drop k xs) = {}"
proof -
  have "distinct (map fst (take k xs) @ map fst (drop k xs))"
    using assms by (simp flip: map_append)
  then show ?thesis by auto
qed



lemma stem_prefix_keeps:
  assumes "CHR ''.'' \<notin> set p" "p \<noteq> []" "hd p \<noteq> CHR ''.''"
  shows "\<exists>s. stem (p @ k) = p @ s"
proof -
  obtain c q where p: "p = c # q" using assms(2) by (cases p) auto
  have c: "c \<noteq> CHR ''.''" using assms(3) p by simp
  have q: "CHR ''.'' \<notin> set q" using assms(1) p by simp
  show ?thesis
  proof (cases "CHR ''.'' \<in> set k")
    case False
    then show ?thesis using p c q by (auto simp: stem_def)
  next
    case True
    then have ex: "\<exists>x \<in> set (rev k). \<not> x \<noteq> CHR ''.''" by simp
    define d where "d = dropWhile (\<lambda>x. x \<noteq> CHR ''.'') (rev k)"
    have dne: "d \<noteq> []" using True by (simp add: d_def)
    have "dropWhile (\<lambda>x. x \<noteq> CHR ''.'') (rev (q @ k)) = d @ rev q"
      using ex by (simp add: d_def dropWhile_append1)
    then have "rev (tl (dropWhile (\<lambda>x. x \<noteq> CHR ''.'') (rev (q @ k)))) = q @ rev (tl d)"
      using dne by simp
    then show ?thesis using p c True by (auto simp: stem_def)
  qed
qed

lemma startsWith_stem_getCacheFile:
  "startsWith (stem (getCacheFile key)) getFileNamePrefix"
proof -
  have "\<exists>s. stem (getFileNamePrefix @ key) = getFileNamePrefix @ s"
    by (rule stem_prefix_keeps) (simp_all add: getFileNamePrefix_def)
  then show ?thesis by (auto simp: startsWith_def getCacheFile_def)
qed

lemma getCacheFile_inj [simp]: "getCacheFile a = getCacheFile b \<longleftrightarrow> a = b"
  by (simp add: getCacheFile_def)

lemma cacheFiles_update:
  "cacheFiles (fs(getCacheFile key \<mapsto> f)) = insert (getCacheFile key) (cacheFiles fs)"
  by (auto simp: cacheFiles_def startsWith_stem_getCacheFile)

lemma store_Written:
  assumes "\<forall>f. fs (getCacheFile key) = Some f \<longrightarrow> \<not> directory f"
  shows "store now Written key v fs
           = fs(getCacheFile key \<mapsto> \<lparr>content = v, mtime = now, directory = False\<rparr>)"
  using assms by (auto simp: store_def Let_def split: option.splits)









lemma reload_folder:
  "snd (snd (reload now avail key destAddress destSize fs)) =
     (case fs (getCacheFile key) of
        None \<Rightarrow> fs
      | Some f \<Rightarrow>
          if \<not> directory f \<and> content f \<noteq> [] \<and> destAddress \<noteq> None \<and> length (content f) \<le> destSize
             \<and> length (content f) \<le> avail
          then fs(getCacheFile key \<mapsto> \<lparr>content = content f, mtime = now, directory = False\<rparr>)
          else fs)"
  by (auto simp: reload_def Let_def min_def split: option.splits)












lemma olderThan_empty: "olderThan t Map.empty"
  by (simp add: olderThan_def cacheFiles_def)





lemma dom_store:
  "dom (store now Written key v Map.empty) = {getCacheFile key}"
  by (simp add: store_def)

lemma removeOldFiles_subset:
  "removeOldFiles maxNumFiles removable entries fs n = None
   \<or> removeOldFiles maxNumFiles removable entries fs n = fs n"
  by (simp add: removeOldFiles_def Let_def removeFiles_apply)

lemma removeOldFiles_keeps_newest:
  assumes de: "distinct entries" and pos: "0 < maxNumFiles" and f: "fs n = Some f"
    and newest: "\<forall>m \<in> cacheFiles fs. m \<noteq> n \<longrightarrow> mtimeOf fs m < mtime f"
  shows "removeOldFiles maxNumFiles removable entries fs n = Some f"
proof -
  define files where "files = sort_key snd (collectFiles entries fs)"
  define k where "k = length files - maxNumFiles"
  have dfiles: "distinct (map fst files)"
    using distinct_collectFiles [OF de, of fs]
    by (metis files_def distinct_map distinct_sort set_sort)
  have sfiles: "fst ` set files \<subseteq> cacheFiles fs"
    using fst_set_collectFiles [of entries fs] by (auto simp: files_def)
  have srt: "sorted (map snd files)"
    by (simp add: files_def)
  have times: "\<And>m t. (m, t) \<in> set files \<Longrightarrow> t = mtimeOf fs m"
    using snd_collectFiles by (simp add: files_def)
  have "n \<notin> fst ` set (take k files)" if big: "maxNumFiles < length files"
  proof
    assume "n \<in> fst ` set (take k files)"
    then obtain t where n: "(n, t) \<in> set (take k files)" by force
    have t: "t = mtime f" using times [of n t] n f by (auto simp: mtimeOf_def dest: in_set_takeD)
    have "drop k files \<noteq> []" using big pos by (simp add: k_def)
    then obtain r tr where r: "(r, tr) \<in> set (drop k files)"
      by (cases "drop k files") auto
    have "r \<noteq> n"
      using distinct_fst_take_drop [OF dfiles, of k] n r by force
    moreover have "r \<in> cacheFiles fs" using r sfiles by (force dest: in_set_dropD)
    ultimately have "mtimeOf fs r < mtime f" using newest by simp
    moreover have "tr = mtimeOf fs r" using times r by (meson in_set_dropD)
    moreover have "snd (n, t) \<le> snd (r, tr)"
      by (rule sorted_take_drop [OF srt n r])
    ultimately show False using t by simp
  qed
  then show ?thesis
    using f
    by (auto simp: removeOldFiles_def Let_def removeFiles_apply files_def [symmetric] k_def)
qed

lemma store_other:
  "n \<noteq> getCacheFile key \<Longrightarrow> store now outcome key v fs n = fs n"
  by (simp add: store_def Let_def split: option.splits write_outcome.splits)

lemma reload_other:
  "n \<noteq> getCacheFile key \<Longrightarrow> snd (snd (reload now avail key destAddress destSize fs)) n = fs n"
  by (simp add: reload_folder split: option.splits)

lemma reload_missing:
  "fs (getCacheFile key) = None \<Longrightarrow> reload now avail key destAddress destSize fs = (0, destAddress, fs)"
  by (simp add: reload_def)

lemma never_stored:
  "fs (getCacheFile k) = None \<Longrightarrow> k \<notin> set (storedKeys steps) \<Longrightarrow>
     runCache maxNumFiles steps fs (getCacheFile k) = None"
proof (induction steps arbitrary: fs)
  case Nil
  then show ?case by simp
next
  case (Cons a steps)
  obtain now s where a: "a = (now, s)" by (cases a)
  have "stepCache maxNumFiles now s fs (getCacheFile k) = None"
  proof (cases s)
    case (Store key v)
    then have "key \<noteq> k" using Cons.prems(2) a by auto
    then show ?thesis using Store Cons.prems(1) by (simp add: store_other)
  next
    case (Reload key destAddress destSize avail)
    show ?thesis
    proof (cases "key = k")
      case True
      then show ?thesis using Reload Cons.prems(1) by (simp add: reload_missing)
    next
      case False
      then show ?thesis using Reload Cons.prems(1) by (simp add: reload_other)
    qed
  next
    case (Purge entries)
    then show ?thesis
      using removeOldFiles_subset [of maxNumFiles "\<lambda>n. True" entries fs "getCacheFile k"]
        Cons.prems(1) by auto
  qed
  moreover have "k \<notin> set (storedKeys steps)"
    using Cons.prems(2) a by (cases s) auto
  ultimately show ?case using Cons.IH a by simp
qed
text \<open>
  Claim C7 (as amended). \<open>reload\<close> returns 0 when there is no entry for the key, when the
  entry is a directory, when the file is empty and when the read is short. It returns the
  file size, leaving the destination and the folder as they were, when the destination is
  null or smaller than the file. Otherwise it copies exactly the file's bytes to the start
  of the destination, sets the modification time and returns the size. \<open>store\<close> swallows a
  failed write, so the round trip is that of a store whose write went through: then a
  reload into a buffer of \<open>length v\<close> bytes returns \<open>length v\<close> and fills the buffer with
  \<open>v\<close>, and a reload with a null destination returns \<open>length v\<close>; this is still so after
  the purge that the store triggers has run, provided at least one file is allowed and
  every other cache entry is older than the stored one. A key that differs from the stored
  one and has no file gets 0, as does a key that no step of a history has stored. A write
  that fails before the file is opened leaves the folder, and so every reload, as before.
\<close>

theorem reload_contract:
  "(fs (getCacheFile k) = None \<longrightarrow> reload now avail k destAddress destSize fs = (0, destAddress, fs))
 \<and> (\<forall>f. fs (getCacheFile k) = Some f \<and> directory f \<longrightarrow>
        reload now avail k destAddress destSize fs = (0, destAddress, fs))
 \<and> (\<forall>f. fs (getCacheFile k) = Some f \<and> \<not> directory f \<and> content f = [] \<longrightarrow>
        reload now avail k destAddress destSize fs = (0, destAddress, fs))
 \<and> (\<forall>f buf. fs (getCacheFile k) = Some f \<and> \<not> directory f \<and> content f \<noteq> [] \<and> destAddress = Some buf
        \<and> length (content f) \<le> destSize \<and> avail < length (content f) \<longrightarrow>
        fst (reload now avail k destAddress destSize fs) = 0
        \<and> snd (snd (reload now avail k destAddress destSize fs)) = fs)
 \<and> (\<forall>f. fs (getCacheFile k) = Some f \<and> \<not> directory f \<and> content f \<noteq> []
        \<and> (destAddress = None \<or> destSize < length (content f)) \<longrightarrow>
        reload now avail k destAddress destSize fs = (length (content f), destAddress, fs))
 \<and> (\<forall>f buf. fs (getCacheFile k) = Some f \<and> \<not> directory f \<and> content f \<noteq> [] \<and> destAddress = Some buf
        \<and> length (content f) \<le> destSize \<and> length (content f) \<le> avail \<longrightarrow>
        reload now avail k destAddress destSize fs =
          (length (content f), Some (content f @ drop (length (content f)) buf),
           fs(getCacheFile k \<mapsto> f\<lparr>mtime := now\<rparr>)))
 \<and> (\<forall>buf. length buf = length v \<and> length v \<le> avail
        \<and> (\<forall>f. fs (getCacheFile k) = Some f \<longrightarrow> \<not> directory f) \<longrightarrow>
        fst (reload now avail k (Some buf) (length v) (store t Written k v fs)) = length v
        \<and> fst (snd (reload now avail k (Some buf) (length v) (store t Written k v fs))) = Some v)
 \<and> ((\<forall>f. fs (getCacheFile k) = Some f \<longrightarrow> \<not> directory f) \<longrightarrow>
        reload now avail k None 0 (store t Written k v fs)
          = (length v, None, store t Written k v fs))
 \<and> (\<forall>buf. length buf = length v \<and> length v \<le> avail
        \<and> (\<forall>f. fs (getCacheFile k) = Some f \<longrightarrow> \<not> directory f)
        \<and> 0 < maxNumFiles \<and> distinct entries \<and> olderThan t fs \<longrightarrow>
        fst (reload now avail k (Some buf) (length v)
               (removeOldFiles maxNumFiles removable entries (store t Written k v fs))) = length v
        \<and> fst (snd (reload now avail k (Some buf) (length v)
               (removeOldFiles maxNumFiles removable entries (store t Written k v fs)))) = Some v)
 \<and> (\<forall>k'. k' \<noteq> k \<and> fs (getCacheFile k') = None \<longrightarrow>
        reload now avail k' destAddress destSize (store t outcome k v fs)
          = (0, destAddress, store t outcome k v fs))
 \<and> (\<forall>k'. k' \<notin> set (storedKeys steps) \<longrightarrow>
        fst (reload now avail k' destAddress destSize (runCache maxNumFiles steps Map.empty)) = 0)
 \<and> store t (WriteFailed None) k v fs = fs"
proof -
  let ?name = "getCacheFile k"
  let ?new = "\<lparr>content = v, mtime = t, directory = False\<rparr>"
  have branches:
    "fs ?name = None \<longrightarrow> reload now avail k destAddress destSize fs = (0, destAddress, fs)"
    "\<forall>f. fs ?name = Some f \<and> directory f \<longrightarrow> reload now avail k destAddress destSize fs = (0, destAddress, fs)"
    "\<forall>f. fs ?name = Some f \<and> \<not> directory f \<and> content f = [] \<longrightarrow>
        reload now avail k destAddress destSize fs = (0, destAddress, fs)"
    "\<forall>f buf. fs ?name = Some f \<and> \<not> directory f \<and> content f \<noteq> [] \<and> destAddress = Some buf
        \<and> length (content f) \<le> destSize \<and> avail < length (content f) \<longrightarrow>
        fst (reload now avail k destAddress destSize fs) = 0
        \<and> snd (snd (reload now avail k destAddress destSize fs)) = fs"
    "\<forall>f. fs ?name = Some f \<and> \<not> directory f \<and> content f \<noteq> []
        \<and> (destAddress = None \<or> destSize < length (content f)) \<longrightarrow>
        reload now avail k destAddress destSize fs = (length (content f), destAddress, fs)"
    "\<forall>f buf. fs ?name = Some f \<and> \<not> directory f \<and> content f \<noteq> [] \<and> destAddress = Some buf
        \<and> length (content f) \<le> destSize \<and> length (content f) \<le> avail \<longrightarrow>
        reload now avail k destAddress destSize fs =
          (length (content f), Some (content f @ drop (length (content f)) buf),
           fs(?name \<mapsto> f\<lparr>mtime := now\<rparr>))"
    by (auto simp: reload_def Let_def min_def split: option.splits)
  have full: "fst (reload now avail k (Some buf) (length v) fs1) = length v
              \<and> fst (snd (reload now avail k (Some buf) (length v) fs1)) = Some v"
    if "fs1 ?name = Some ?new" "length buf = length v" "length v \<le> avail" for fs1 buf
    using that by (auto simp: reload_def Let_def min_def)
  have stored: "store t Written k v fs ?name = Some ?new"
    if "\<forall>f. fs ?name = Some f \<longrightarrow> \<not> directory f"
    using store_Written [where fs = fs and key = k and now = t and v = v, OF that] by simp
  have round: "\<forall>buf. length buf = length v \<and> length v \<le> avail
        \<and> (\<forall>f. fs ?name = Some f \<longrightarrow> \<not> directory f) \<longrightarrow>
        fst (reload now avail k (Some buf) (length v) (store t Written k v fs)) = length v
        \<and> fst (snd (reload now avail k (Some buf) (length v) (store t Written k v fs))) = Some v"
    using full stored by blast
  have query: "(\<forall>f. fs ?name = Some f \<longrightarrow> \<not> directory f) \<longrightarrow>
        reload now avail k None 0 (store t Written k v fs)
          = (length v, None, store t Written k v fs)"
    using stored by (auto simp: reload_def Let_def)
  have purged: "removeOldFiles maxNumFiles removable entries (store t Written k v fs) ?name
                  = Some ?new"
    if reg: "\<forall>f. fs ?name = Some f \<longrightarrow> \<not> directory f" and pos: "0 < maxNumFiles"
      and de: "distinct entries" and old: "olderThan t fs"
  proof (rule removeOldFiles_keeps_newest [where fs = "store t Written k v fs"
        and n = "getCacheFile k", OF de pos stored [OF reg]])
    show "\<forall>m \<in> cacheFiles (store t Written k v fs). m \<noteq> ?name \<longrightarrow>
            mtimeOf (store t Written k v fs) m < mtime ?new"
      using old
      unfolding store_Written [where fs = fs and key = k and now = t and v = v, OF reg]
        cacheFiles_update
      by (auto simp: olderThan_def mtimeOf_def)
  qed
  have after: "\<forall>buf. length buf = length v \<and> length v \<le> avail
        \<and> (\<forall>f. fs ?name = Some f \<longrightarrow> \<not> directory f)
        \<and> 0 < maxNumFiles \<and> distinct entries \<and> olderThan t fs \<longrightarrow>
        fst (reload now avail k (Some buf) (length v)
               (removeOldFiles maxNumFiles removable entries (store t Written k v fs))) = length v
        \<and> fst (snd (reload now avail k (Some buf) (length v)
               (removeOldFiles maxNumFiles removable entries (store t Written k v fs)))) = Some v"
    using full purged by blast
  have other: "\<forall>k'. k' \<noteq> k \<and> fs (getCacheFile k') = None \<longrightarrow>
        reload now avail k' destAddress destSize (store t outcome k v fs)
          = (0, destAddress, store t outcome k v fs)"
    by (simp add: reload_missing store_other)
  have never: "\<forall>k'. k' \<notin> set (storedKeys steps) \<longrightarrow>
        fst (reload now avail k' destAddress destSize (runCache maxNumFiles steps Map.empty)) = 0"
    using never_stored [of Map.empty _ steps maxNumFiles] by (simp add: reload_missing)
  have failed: "store t (WriteFailed None) k v fs = fs"
    by (simp add: store_def Let_def)
  show ?thesis
    by (intro conjI branches round query after other never failed)
qed

theorem reload_contract_witness:
  "fst (reload 7 9 ''k'' (Some [0, 0]) 2 (store 3 Written ''k'' [1, 2] Map.empty)) = 2
   \<and> fst (snd (reload 7 9 ''k'' (Some [0, 0]) 2 (store 3 Written ''k'' [1, 2] Map.empty)))
       = Some [1, 2]
   \<and> reload 7 9 ''k'' None 0 (store 3 Written ''k'' [1, 2] Map.empty)
       = (2, None, store 3 Written ''k'' [1, 2] Map.empty)
   \<and> fst (reload 7 9 ''k'' (Some [0, 0]) 2
            (removeOldFiles 1 (\<lambda>n. True) [getCacheFile ''k'']
               (store 3 Written ''k'' [1, 2] Map.empty))) = 2
   \<and> (Map.empty :: folder) (getCacheFile ''u'') = None
   \<and> reload 7 9 ''u'' (Some [0, 0]) 2 (store 3 Written ''k'' [1, 2] Map.empty)
       = (0, Some [0, 0], store 3 Written ''k'' [1, 2] Map.empty)
   \<and> fst (reload 7 9 ''u'' (Some [0, 0]) 2
            (runCache 1 [(3, Store ''k'' [1, 2]), (4, Purge [getCacheFile ''k''])] Map.empty)) = 0"
proof -
  note k = reload_contract [where fs = Map.empty and k = "''k''" and now = 7 and avail = 9
      and destAddress = "Some [0, 0]" and destSize = 2 and v = "[1, 2]" and t = 3 and maxNumFiles = 1
      and entries = "[getCacheFile ''k'']" and removable = "\<lambda>n. True" and outcome = Written
      and steps = "[(3, Store ''k'' [1, 2]), (4, Purge [getCacheFile ''k''])]"]
  have round: "\<forall>buf. length buf = length [1, 2 :: byte] \<and> length [1, 2 :: byte] \<le> 9
        \<and> (\<forall>f. (Map.empty :: folder) (getCacheFile ''k'') = Some f \<longrightarrow> \<not> directory f) \<longrightarrow>
        fst (reload 7 9 ''k'' (Some buf) (length [1, 2 :: byte])
               (store 3 Written ''k'' [1, 2] Map.empty)) = length [1, 2 :: byte]
        \<and> fst (snd (reload 7 9 ''k'' (Some buf) (length [1, 2 :: byte])
               (store 3 Written ''k'' [1, 2] Map.empty))) = Some [1, 2]"
    using k by (elim conjE) assumption
  have after: "\<forall>buf. length buf = length [1, 2 :: byte] \<and> length [1, 2 :: byte] \<le> 9
        \<and> (\<forall>f. (Map.empty :: folder) (getCacheFile ''k'') = Some f \<longrightarrow> \<not> directory f)
        \<and> 0 < (1::nat) \<and> distinct [getCacheFile ''k''] \<and> olderThan 3 Map.empty \<longrightarrow>
        fst (reload 7 9 ''k'' (Some buf) (length [1, 2 :: byte])
               (removeOldFiles 1 (\<lambda>n. True) [getCacheFile ''k'']
                  (store 3 Written ''k'' [1, 2] Map.empty))) = length [1, 2 :: byte]
        \<and> fst (snd (reload 7 9 ''k'' (Some buf) (length [1, 2 :: byte])
               (removeOldFiles 1 (\<lambda>n. True) [getCacheFile ''k'']
                  (store 3 Written ''k'' [1, 2] Map.empty)))) = Some [1, 2]"
    using k by (elim conjE) assumption
  have query: "(\<forall>f. (Map.empty :: folder) (getCacheFile ''k'') = Some f \<longrightarrow> \<not> directory f) \<longrightarrow>
        reload 7 9 ''k'' None 0 (store 3 Written ''k'' [1, 2] Map.empty)
          = (length [1, 2 :: byte], None, store 3 Written ''k'' [1, 2] Map.empty)"
    using k by (elim conjE) assumption
  have other: "\<forall>k'. k' \<noteq> ''k'' \<and> (Map.empty :: folder) (getCacheFile k') = None \<longrightarrow>
        reload 7 9 k' (Some [0, 0]) 2 (store 3 Written ''k'' [1, 2] Map.empty)
          = (0, Some [0, 0], store 3 Written ''k'' [1, 2] Map.empty)"
    using k by (elim conjE) assumption
  have never: "\<forall>k'. k' \<notin> set (storedKeys [(3, Store ''k'' [1, 2]), (4, Purge [getCacheFile ''k''])]) \<longrightarrow>
        fst (reload 7 9 k' (Some [0, 0]) 2
               (runCache 1 [(3, Store ''k'' [1, 2]), (4, Purge [getCacheFile ''k''])] Map.empty)) = 0"
    using k by (elim conjE) assumption
  from round [THEN spec, of "[0, 0]"] after [THEN spec, of "[0, 0]"] query
    other [THEN spec, of "''u''"] never [THEN spec, of "''u''"]
  show ?thesis
    by (simp add: numeral_2_eq_2 olderThan_empty)
qed

text \<open>
  The claim as first worded fails where the write does not go through, and where the purge
  that the store triggers is allowed no file at all: in both cases the reload that follows
  the store returns 0 and not the length of the data.
\<close>

theorem reload_after_store_counterexample:
  "fst (reload 7 9 ''k'' (Some [0, 0]) 2 (store 3 (WriteFailed None) ''k'' [1, 2] Map.empty)) = 0
   \<and> fst (reload 7 9 ''k'' (Some [0, 0]) 2
            (removeOldFiles 0 (\<lambda>n. True) [getCacheFile ''k'']
               (store 3 Written ''k'' [1, 2] Map.empty))) = 0
   \<and> length [1, 2 :: byte] = 2"
proof -
  have 1: "store 3 (WriteFailed None) ''k'' [1, 2] Map.empty = Map.empty"
    by (simp add: store_def Let_def)
  have 2: "removeOldFiles 0 (\<lambda>n. True) [getCacheFile ''k'']
             (store 3 Written ''k'' [1, 2] Map.empty) (getCacheFile ''k'') = None"
    by (simp add: removeOldFiles_def Let_def store_def startsWith_stem_getCacheFile
        removeFiles_apply)
  show ?thesis
    by (simp add: 1 2 reload_def Let_def)
qed



section \<open>Properties of the rendering driver\<close>

lemma processRanges_adds [simp]:
  "processRanges (map AddIncomingMIDIEvent xs @ cs) = processRanges cs"
  by (induction xs) auto

lemma delivered_adds [simp]:
  "delivered (map AddIncomingMIDIEvent xs @ cs) = xs @ delivered cs"
  by (induction xs) auto

lemma deliveredBefore_adds [simp]:
  "deliveredBefore acc (map AddIncomingMIDIEvent xs @ cs) = deliveredBefore (acc @ xs) cs"
  by (induction xs arbitrary: acc) auto

lemma replaceFlags_adds [simp]:
  "replaceFlags (map AddIncomingMIDIEvent xs @ cs) = replaceFlags cs"
  by (induction xs) auto

lemma scanMIDI_props:
  assumes "e \<le> tot"
  shows "fst (fst (scanMIDI ts tot chunk e)) = fst chunk
       \<and> e \<le> snd (scanMIDI ts tot chunk e) \<and> snd (scanMIDI ts tot chunk e) \<le> tot
       \<and> (\<forall>i. e \<le> i \<and> i < snd (scanMIDI ts tot chunk e) \<longrightarrow> ts ! i \<le> fst chunk)
       \<and> (snd (scanMIDI ts tot chunk e) < tot \<longrightarrow>
            fst chunk < ts ! snd (scanMIDI ts tot chunk e)
            \<and> snd (fst (scanMIDI ts tot chunk e)) = ts ! snd (scanMIDI ts tot chunk e))
       \<and> (snd (scanMIDI ts tot chunk e) = tot \<longrightarrow> snd (fst (scanMIDI ts tot chunk e)) = snd chunk)"
  using assms
proof (induction ts tot chunk e rule: scanMIDI.induct)
  case (1 ts tot chunk e)
  show ?case
  proof (cases "e < tot")
    case False
    have "scanMIDI ts tot chunk e = (chunk, e)"
      using False by (subst scanMIDI.simps) simp
    then show ?thesis using False 1(2) by simp
  next
    case True
    show ?thesis
    proof (cases "fst chunk < ts ! e")
      case gt: True
      have "scanMIDI ts tot chunk e = ((fst chunk, ts ! e), e)"
        using True gt by (subst scanMIDI.simps) (simp add: Let_def)
      then show ?thesis using True gt by simp
    next
      case le: False
      have eq: "scanMIDI ts tot chunk e = scanMIDI ts tot chunk (e + 1)"
        using True le by (subst scanMIDI.simps) (simp add: Let_def)
      have ih: "fst (fst (scanMIDI ts tot chunk (e + 1))) = fst chunk
       \<and> e + 1 \<le> snd (scanMIDI ts tot chunk (e + 1)) \<and> snd (scanMIDI ts tot chunk (e + 1)) \<le> tot
       \<and> (\<forall>i. e + 1 \<le> i \<and> i < snd (scanMIDI ts tot chunk (e + 1)) \<longrightarrow> ts ! i \<le> fst chunk)
       \<and> (snd (scanMIDI ts tot chunk (e + 1)) < tot \<longrightarrow>
            fst chunk < ts ! snd (scanMIDI ts tot chunk (e + 1))
            \<and> snd (fst (scanMIDI ts tot chunk (e + 1))) = ts ! snd (scanMIDI ts tot chunk (e + 1)))
       \<and> (snd (scanMIDI ts tot chunk (e + 1)) = tot \<longrightarrow> snd (fst (scanMIDI ts tot chunk (e + 1))) = snd chunk)"
        using 1(1) [OF True refl le] True by simp
      have "\<forall>i. e \<le> i \<and> i < snd (scanMIDI ts tot chunk (e + 1)) \<longrightarrow> ts ! i \<le> fst chunk"
      proof (intro allI impI)
        fix i assume i: "e \<le> i \<and> i < snd (scanMIDI ts tot chunk (e + 1))"
        show "ts ! i \<le> fst chunk"
        proof (cases "i = e")
          case True
          then show ?thesis using le by simp
        next
          case False
          then have "e + 1 \<le> i" using i by simp
          then show ?thesis using ih i by blast
        qed
      qed
      then show ?thesis unfolding eq using ih by simp
    qed
  qed
qed

lemma filter_prefix_count:
  assumes "k \<le> length ts" "\<forall>i<k. P (ts ! i)" "\<forall>i. k \<le> i \<and> i < length ts \<longrightarrow> \<not> P (ts ! i)"
  shows "filter P ts = take k ts"
proof -
  have a: "filter P (take k ts) = take k ts"
    using assms(1,2) by (auto simp: filter_id_conv in_set_conv_nth)
  have "\<forall>x \<in> set (drop k ts). \<not> P x"
  proof
    fix x assume "x \<in> set (drop k ts)"
    then obtain j where "j < length (drop k ts)" "x = drop k ts ! j"
      by (auto simp: in_set_conv_nth)
    then show "\<not> P x" using assms(1,3) by simp
  qed
  then have b: "filter P (drop k ts) = []"
    by (simp add: filter_empty_conv)
  have "filter P ts = filter P (take k ts @ drop k ts)" by simp
  also have "\<dots> = take k ts" unfolding filter_append a b by simp
  finally show ?thesis .
qed

lemma filter_suffix:
  assumes "k \<le> length ts" "\<forall>i<k. \<not> P (ts ! i)" "\<forall>i. k \<le> i \<and> i < length ts \<longrightarrow> P (ts ! i)"
  shows "filter P ts = drop k ts"
proof -
  have "\<forall>x \<in> set (take k ts). \<not> P x"
  proof
    fix x assume "x \<in> set (take k ts)"
    then obtain j where "j < length (take k ts)" "x = take k ts ! j"
      by (auto simp: in_set_conv_nth)
    then show "\<not> P x" using assms(1,2) by simp
  qed
  then have a: "filter P (take k ts) = []"
    by (simp add: filter_empty_conv)
  have "\<forall>x \<in> set (drop k ts). P x"
  proof
    fix x assume "x \<in> set (drop k ts)"
    then obtain j where "j < length (drop k ts)" "x = drop k ts ! j"
      by (auto simp: in_set_conv_nth)
    then show "P x" using assms(1,3) by simp
  qed
  then have b: "filter P (drop k ts) = drop k ts"
    by (simp add: filter_id_conv)
  have "filter P ts = filter P (take k ts @ drop k ts)" by simp
  also have "\<dots> = drop k ts" unfolding filter_append a b by simp
  finally show ?thesis .
qed

lemma map_nth_upt_drop_take:
  "k \<le> length xs \<Longrightarrow> map ((!) xs) [m..<k] = drop m (take k xs)"
  by (rule nth_equalityI) auto

lemma take_drop_take: "m \<le> k \<Longrightarrow> take m xs @ drop m (take k xs) = take k xs"
proof -
  assume "m \<le> k"
  then have "take m (take k xs) = take m xs" by (simp add: min.absorb1)
  then show ?thesis by (metis append_take_drop_id)
qed

lemma drop_take_drop: "m \<le> k \<Longrightarrow> drop m (take k xs) @ drop k xs = drop m xs"
proof -
  assume mk: "m \<le> k"
  have "drop m xs = drop m (take k xs @ drop k xs)" by simp
  also have "\<dots> = drop m (take k xs) @ drop (m - length (take k xs)) (drop k xs)"
    by (rule drop_append)
  also have "drop (m - length (take k xs)) (drop k xs) = drop k xs"
  proof (cases "k \<le> length xs")
    case True
    then show ?thesis using mk by simp
  next
    case False
    then show ?thesis by simp
  qed
  finally show ?thesis by simp
qed

lemma renderChunks_props:
  assumes lm: "length msgs = n" and lt: "length ts = n"
    and srt: "sorted ts" and bnd: "\<forall>t \<in> set ts. t < E"
    and sE: "s \<le> E" and mn: "m \<le> n" and inv: "\<forall>i<m. ts ! i \<le> s"
    and fin: "s = E \<longrightarrow> m = n"
  shows "covers s E (processRanges (renderChunks msgs ts n (s, E) m))
       \<and> delivered (renderChunks msgs ts n (s, E) m) = drop m msgs
       \<and> (\<forall>(s', ds) \<in> set (deliveredBefore (take m msgs) (renderChunks msgs ts n (s, E) m)).
             ds = take (length (filter (\<lambda>t. t \<le> s') ts)) msgs)
       \<and> (\<forall>(s', e) \<in> set (processRanges (renderChunks msgs ts n (s, E) m)).
             e = nextEventOrEnd ts E s')
       \<and> (\<forall>r \<in> set (replaceFlags (renderChunks msgs ts n (s, E) m)). r)"
  using sE mn inv fin
proof (induction "E - s" arbitrary: s m rule: less_induct)
  case less
  show ?case
  proof (cases "s < E")
    case False
    then have "s = E" using less.prems(1) by simp
    then have "m = n" using less.prems(4) by simp
    have "renderChunks msgs ts n (s, E) m = []"
      using False by (subst renderChunks.simps) simp
    then show ?thesis using \<open>s = E\<close> \<open>m = n\<close> lm by simp
  next
    case True
    define eom where "eom = snd (scanMIDI ts n (s, E) m)"
    define e where "e = snd (fst (scanMIDI ts n (s, E) m))"
    note sp = scanMIDI_props [OF less.prems(2), of ts "(s, E)", folded eom_def e_def, simplified]
    have start: "fst (fst (scanMIDI ts n (s, E) m)) = s" using sp by simp
    have meom: "m \<le> eom" and eomn: "eom \<le> n" using sp by simp_all
    have upto: "\<forall>i. m \<le> i \<and> i < eom \<longrightarrow> ts ! i \<le> s" using sp by simp
    have more: "eom < n \<Longrightarrow> s < ts ! eom \<and> e = ts ! eom" using sp by simp
    have last: "eom = n \<Longrightarrow> e = E" using sp by simp
    have below: "\<forall>i<eom. ts ! i \<le> s"
    proof (intro allI impI)
      fix i assume "i < eom"
      then show "ts ! i \<le> s"
        using less.prems(3) upto by (cases "i < m") auto
    qed
    have above: "\<forall>i. eom \<le> i \<and> i < length ts \<longrightarrow> s < ts ! i"
    proof (intro allI impI)
      fix i assume i: "eom \<le> i \<and> i < length ts"
      then have "eom < n" using lt by simp
      then have "s < ts ! eom" using more by simp
      moreover have "ts ! eom \<le> ts ! i"
        using srt i by (simp add: sorted_nth_mono)
      ultimately show "s < ts ! i" by simp
    qed
    have se: "s < e"
    proof (cases "eom < n")
      case True
      then show ?thesis using more by simp
    next
      case False
      then show ?thesis using last eomn \<open>s < E\<close> by simp
    qed
    have eE: "e \<le> E"
    proof (cases "eom < n")
      case True
      then have "e \<in> set ts" using more lt by simp
      then show ?thesis using bnd by auto
    next
      case False
      then show ?thesis using last eomn by simp
    qed
    have efin: "e = E \<longrightarrow> eom = n"
    proof
      assume "e = E"
      show "eom = n"
      proof (rule ccontr)
        assume "eom \<noteq> n"
        then have "eom < n" using eomn by simp
        then have "e \<in> set ts" using more lt by simp
        then show False using bnd \<open>e = E\<close> by auto
      qed
    qed
    have einv: "\<forall>i<eom. ts ! i \<le> e" using below se by auto
    have unfold: "renderChunks msgs ts n (s, E) m
        = map AddIncomingMIDIEvent (drop m (take eom msgs))
          @ Process s e True # renderChunks msgs ts n (e, E) eom"
    proof -
      have "map (\<lambda>i. AddIncomingMIDIEvent (msgs ! i)) [m..<eom]
          = map AddIncomingMIDIEvent (map ((!) msgs) [m..<eom])"
        by simp
      also have "\<dots> = map AddIncomingMIDIEvent (drop m (take eom msgs))"
        using eomn lm by (simp add: map_nth_upt_drop_take)
      finally show ?thesis
        using True start
        by (subst renderChunks.simps) (simp add: split_beta eom_def e_def)
    qed
    have ih: "covers e E (processRanges (renderChunks msgs ts n (e, E) eom))
       \<and> delivered (renderChunks msgs ts n (e, E) eom) = drop eom msgs
       \<and> (\<forall>(s', ds) \<in> set (deliveredBefore (take eom msgs) (renderChunks msgs ts n (e, E) eom)).
             ds = take (length (filter (\<lambda>t. t \<le> s') ts)) msgs)
       \<and> (\<forall>(s', e) \<in> set (processRanges (renderChunks msgs ts n (e, E) eom)).
             e = nextEventOrEnd ts E s')
       \<and> (\<forall>r \<in> set (replaceFlags (renderChunks msgs ts n (e, E) eom)). r)"
      using se eE by (intro less.hyps eomn einv efin) simp_all
    have acc: "take m msgs @ drop m (take eom msgs) = take eom msgs"
      using meom by (rule take_drop_take)
    have dl: "drop m (take eom msgs) @ drop eom msgs = drop m msgs"
      using meom by (rule drop_take_drop)
    have cnt: "filter (\<lambda>t. t \<le> s) ts = take eom ts"
      using eomn lt below above by (intro filter_prefix_count) (auto simp: not_le)
    have nxt: "nextEventOrEnd ts E s = e"
    proof -
      have f: "filter (\<lambda>t. s < t) ts = drop eom ts"
        using eomn lt below above by (intro filter_suffix) (auto simp: not_less)
      show ?thesis
      proof (cases "eom < n")
        case True
        then have "drop eom ts = ts ! eom # drop (Suc eom) ts"
          using lt by (simp add: Cons_nth_drop_Suc)
        then show ?thesis using more True by (simp add: nextEventOrEnd_def f)
      next
        case False
        then show ?thesis using last eomn lt by (simp add: nextEventOrEnd_def f)
      qed
    qed
    have c1: "covers s E (processRanges (renderChunks msgs ts n (s, E) m))"
      using ih se by (simp add: unfold)
    have c2: "delivered (renderChunks msgs ts n (s, E) m) = drop m msgs"
      using ih dl by (simp add: unfold)
    have c3: "\<forall>(s', ds) \<in> set (deliveredBefore (take m msgs) (renderChunks msgs ts n (s, E) m)).
             ds = take (length (filter (\<lambda>t. t \<le> s') ts)) msgs"
      using ih eomn lt by (simp add: unfold acc cnt)
    have c4: "\<forall>(s', e) \<in> set (processRanges (renderChunks msgs ts n (s, E) m)).
             e = nextEventOrEnd ts E s'"
      using ih nxt by (simp add: unfold)
    have i5: "\<forall>r \<in> set (replaceFlags (renderChunks msgs ts n (e, E) eom)). r"
      using ih by (elim conjE)
    have c5: "\<forall>r \<in> set (replaceFlags (renderChunks msgs ts n (s, E) m)). r"
      using i5 by (auto simp: unfold)
    show ?thesis using c1 c2 c3 c4 c5 by blast
  qed
qed

lemma filter_zip_none:
  "\<forall>t \<in> set ts. \<not> P t \<Longrightarrow> filter (\<lambda>(m, t). P t) (zip ms ts) = []"
  by (auto simp: filter_empty_conv dest: set_zip_rightD)

lemma due_messages_prefix:
  assumes "length msgs = length ts" "sorted ts"
  shows "map fst (filter (\<lambda>(m, t). t \<le> s) (zip msgs ts))
           = take (length (filter (\<lambda>t. t \<le> s) ts)) msgs"
  using assms
proof (induction msgs ts rule: list_induct2)
  case Nil
  then show ?case by simp
next
  case (Cons m ms t ts)
  show ?case
  proof (cases "t \<le> s")
    case True
    then show ?thesis using Cons by simp
  next
    case False
    then have none: "\<forall>x \<in> set ts. \<not> x \<le> s"
      using Cons.prems by auto
    then have "filter (\<lambda>(m, t). t \<le> s) (zip ms ts) = []"
      by (rule filter_zip_none)
    moreover have "filter (\<lambda>t. t \<le> s) ts = []"
      using none by (simp add: filter_empty_conv)
    ultimately show ?thesis using False by simp
  qed
qed

text \<open>
  Claim C9. With a non-empty MIDI list whose times are sorted and all before the end of the
  block, one iteration calls \<open>process\<close> on segments that partition the frames from 0 to
  \<open>blockSize\<close> in order; every segment ends at the time of the next MIDI event after its
  start, or at the end of the block; every message is delivered exactly once, in order;
  the messages delivered before the \<open>process\<close> call of a segment are exactly those whose
  time is at or before the start of the segment; and every \<open>process\<close> call has
  \<open>replaceOutput\<close> set.
\<close>

theorem render_subblocks:
  assumes len: "length midiMessages = length midiMessageTimes"
    and ne: "midiMessages \<noteq> []" and small: "length midiMessages < 2 ^ 32"
    and srt: "sorted midiMessageTimes"
    and bnd: "\<forall>t \<in> set midiMessageTimes. t < blockSize"
  shows "\<exists>calls.
           renderBlock sampleRate blockSize midiMessages midiMessageTimes
             = Some (PrepareToStart sampleRate # calls)
         \<and> covers 0 blockSize (processRanges calls)
         \<and> (\<forall>(s, e) \<in> set (processRanges calls). e = nextEventOrEnd midiMessageTimes blockSize s)
         \<and> delivered calls = midiMessages
         \<and> (\<forall>(s, ds) \<in> set (deliveredBefore [] calls).
               ds = map fst (filter (\<lambda>(m, t). t \<le> s) (zip midiMessages midiMessageTimes)))
         \<and> (\<forall>r \<in> set (replaceFlags calls). r)"
proof -
  let ?n = "length midiMessages"
  let ?calls = "renderChunks midiMessages midiMessageTimes ?n (0, blockSize) 0"
  have n0: "?n \<noteq> 0" using ne by simp
  have r: "renderBlock sampleRate blockSize midiMessages midiMessageTimes
             = Some (PrepareToStart sampleRate # ?calls)"
    using len n0 small by (simp add: renderBlock_def)
  have "midiMessageTimes \<noteq> []" using len ne by auto
  then have pos: "0 < blockSize" using bnd by (cases midiMessageTimes) auto
  have p: "covers 0 blockSize (processRanges ?calls)
       \<and> delivered ?calls = drop 0 midiMessages
       \<and> (\<forall>(s', ds) \<in> set (deliveredBefore (take 0 midiMessages) ?calls).
             ds = take (length (filter (\<lambda>t. t \<le> s') midiMessageTimes)) midiMessages)
       \<and> (\<forall>(s', e) \<in> set (processRanges ?calls).
             e = nextEventOrEnd midiMessageTimes blockSize s')
       \<and> (\<forall>r \<in> set (replaceFlags ?calls). r)"
    using pos by (intro renderChunks_props [OF refl len [symmetric] srt bnd]) simp_all
  have due: "\<And>s. map fst (filter (\<lambda>(m, t). t \<le> s) (zip midiMessages midiMessageTimes))
           = take (length (filter (\<lambda>t. t \<le> s) midiMessageTimes)) midiMessages"
    by (rule due_messages_prefix [OF len srt])
  show ?thesis
    using r p by (intro exI [of _ ?calls]) (auto simp: due)
qed

theorem render_subblocks_witness:
  "\<exists>calls. renderBlock 44100 8 ''abc'' [0, 3, 3] = Some (PrepareToStart 44100 # calls)
     \<and> covers 0 8 (processRanges calls) \<and> delivered calls = ''abc''"
proof -
  have "length ''abc'' = length [0, 3, 3 :: nat]" "''abc'' \<noteq> []" "length ''abc'' < 2 ^ 32"
    "sorted [0, 3, 3 :: nat]" "\<forall>t \<in> set [0, 3, 3 :: nat]. t < 8"
    by simp_all
  from render_subblocks [OF this, of 44100] show ?thesis
    by blast
qed

section \<open>Properties of the performer harness\<close>

lemma andThen_simps [simp]:
  "andThen (True, w) f = f w"
  "andThen (False, w) f = (False, w)"
  by (simp_all add: andThen_def)

lemma andThen_cases:
  "andThen r f = (if fst r then f (snd r) else (False, snd r))"
  by (cases r) (simp add: andThen_def)

lemma runAll_append:
  "runAll run (xs @ ys) w = andThen (runAll run xs w) (runAll run ys)"
  by (induction xs arbitrary: w) (simp_all add: andThen_cases)

lemma runAll_inv:
  assumes "\<And>f w. obs (snd (run f w)) = obs w"
  shows "obs (snd (runAll run fs w)) = obs w"
  by (induction fs arbitrary: w) (simp_all add: andThen_cases assms)

lemma steady_logCall: "c \<noteq> Advance \<Longrightarrow> steady (logCall c a) = steady a"
  by (simp add: steady_def routing_def advances_def logCall_def)

lemma hostOutput_logCall [simp]: "hostOutput (logCall c a) = hostOutput a"
  by (simp add: logCall_def)

lemma steady_runPreRender: "steady (snd (runPreRender block f a)) = steady a"
  by (cases f) (simp split: option.splits add: steady_logCall)

lemma hostOutput_runPreRender: "hostOutput (snd (runPreRender block f a)) = hostOutput a"
  by (cases f) (simp split: option.splits)

lemma steady_eventQueue [simp]: "steady (a\<lparr>eventQueue := q\<rparr>) = steady a"
  by (simp add: steady_def routing_def advances_def)

lemma steady_valueQueue [simp]: "steady (a\<lparr>valueQueue := q\<rparr>) = steady a"
  by (simp add: steady_def routing_def advances_def)

lemma steady_handleEvents: "steady (snd (handleEvents ds a)) = steady a"
  by (induction ds arbitrary: a) (simp_all add: steady_logCall)

lemma hostOutput_handleEvents: "hostOutput (snd (handleEvents ds a)) = hostOutput a"
  by (induction ds arbitrary: a) simp_all

lemma steady_handleValues: "steady (snd (handleValues ds a)) = steady a"
  by (induction ds arbitrary: a) (simp_all add: steady_logCall)

lemma hostOutput_handleValues: "hostOutput (snd (handleValues ds a)) = hostOutput a"
  by (induction ds arbitrary: a) simp_all

lemma fold_inv:
  assumes "\<And>x w. obs (f x w) = obs w"
  shows "obs (fold f xs w) = obs w"
  by (induction xs arbitrary: w) (simp_all add: assms)

lemma steady_addMIDIInputs: "steady (addMIDIInputs block a) = steady a"
  unfolding addMIDIInputs_def
  by (simp add: fold_inv [where obs = steady] steady_logCall)

lemma hostOutput_addMIDIInputs: "hostOutput (addMIDIInputs block a) = hostOutput a"
  unfolding addMIDIInputs_def
  by (simp add: fold_inv [where obs = hostOutput])

lemma steady_midiOutputMessages [simp]: "steady (a\<lparr>midiOutputMessages := q\<rparr>) = steady a"
  by (simp add: steady_def routing_def advances_def)

lemma steady_midiOutputDelivered [simp]: "steady (a\<lparr>midiOutputDelivered := q\<rparr>) = steady a"
  by (simp add: steady_def routing_def advances_def)

lemma steady_collectMIDIEvents: "steady (snd (collectMIDIEvents es a)) = steady a"
  by (induction es arbitrary: a) simp_all

lemma hostOutput_collectMIDIEvents: "hostOutput (snd (collectMIDIEvents es a)) = hostOutput a"
  by (induction es arbitrary: a) simp_all

lemma steady_iterateMIDIEndpoint: "steady (snd (iterateMIDIEndpoint p h a)) = steady a"
  by (simp add: iterateMIDIEndpoint_def steady_collectMIDIEvents steady_logCall)

lemma hostOutput_iterateMIDIEndpoint: "hostOutput (snd (iterateMIDIEndpoint p h a)) = hostOutput a"
  by (simp add: iterateMIDIEndpoint_def hostOutput_collectMIDIEvents)

lemma steady_dispatchMIDIOutputEvents: "steady (snd (dispatchMIDIOutputEvents p block a)) = steady a"
  by (simp add: dispatchMIDIOutputEvents_def andThen_cases
        runAll_inv [where obs = steady] steady_iterateMIDIEndpoint)

lemma hostOutput_dispatchMIDIOutputEvents:
  "hostOutput (snd (dispatchMIDIOutputEvents p block a)) = hostOutput a"
  by (simp add: dispatchMIDIOutputEvents_def andThen_cases
        runAll_inv [where obs = hostOutput] hostOutput_iterateMIDIEndpoint)

lemma steady_hostOutput [simp]: "steady (a\<lparr>hostOutput := m\<rparr>) = steady a"
  by (simp add: steady_def routing_def advances_def)

lemma steady_runPostRender: "steady (snd (runPostRender p block f a)) = steady a"
  by (cases f) (simp_all add: Let_def steady_logCall split: prod.splits list.splits)

lemma steady_outputEventQueue [simp]: "steady (a\<lparr>outputEventQueue := q\<rparr>) = steady a"
  by (simp add: steady_def routing_def advances_def)

lemma steady_dispatcherTriggers [simp]: "steady (a\<lparr>dispatcherTriggers := q\<rparr>) = steady a"
  by (simp add: steady_def routing_def advances_def)

lemma steady_moveOutputEventToQueue:
  "steady (snd (moveOutputEventToQueue h t off d a)) = steady a"
  by (simp add: moveOutputEventToQueue_def Let_def split: prod.splits)

lemma hostOutput_moveOutputEventToQueue:
  "hostOutput (snd (moveOutputEventToQueue h t off d a)) = hostOutput a"
  by (simp add: moveOutputEventToQueue_def Let_def split: prod.splits)

lemma iterateOutputEvents_inv:
  assumes "\<And>e w. obs (snd (visitor e w)) = obs w"
  shows "obs (iterateOutputEvents visitor es w) = obs w"
proof (induction es arbitrary: w)
  case Nil
  show ?case by simp
next
  case (Cons e es)
  show ?case
    using assms [of e w] Cons [of "snd (visitor e w)"]
    by (cases "visitor e w") simp
qed

lemma steady_moveOutputEventsToQueue: "steady (moveOutputEventsToQueue p a) = steady a"
  unfolding moveOutputEventsToQueue_def
  by (rule fold_inv)
     (simp add: iterateOutputEvents_inv [where obs = steady] steady_moveOutputEventToQueue
        steady_logCall)

lemma hostOutput_moveOutputEventsToQueue:
  "hostOutput (moveOutputEventsToQueue p a) = hostOutput a"
  unfolding moveOutputEventsToQueue_def
  by (rule fold_inv)
     (simp add: iterateOutputEvents_inv [where obs = hostOutput] hostOutput_moveOutputEventToQueue)

lemma processBlock_stages:
  "processBlock p block replaceOutput a =
     andThen (stagesBeforeCapture p block replaceOutput a)
       (\<lambda>a. (True, (moveOutputEventsToQueue p a)
                \<lparr>numFramesProcessed := numFramesProcessed (moveOutputEventsToQueue p a)
                     + of_nat (numFrames (audioOutput block))\<rparr>))"
  by (simp add: processBlock_def stagesBeforeCapture_def Let_def andThen_cases)

lemma readNativeEndian32_write:
  "readNativeEndian32 (writeNativeEndian32 w @ rest) = w"
  unfolding readNativeEndian32_def writeNativeEndian32_def
  apply simp
  apply (rule bit_eqI)
  apply (auto simp add: bit_simps)
  subgoal for n by (cases "24 \<le> n") simp_all
  done

lemma length_writeNativeEndian32 [simp]: "length (writeNativeEndian32 w) = 4"
  by (simp add: writeNativeEndian32_def)

lemma length_writeNativeEndian64 [simp]: "length (writeNativeEndian64 w) = 8"
  by (simp add: writeNativeEndian64_def)

text \<open>
  Claim C5. When the coercion helper yields nothing, \<open>postEvent\<close> pushes nothing, leaves the
  harness as it was and returns false. When it yields a type index and bytes (of a length
  that leaves the 32-bit record size exact), \<open>postEvent\<close> makes one push of the record that
  is the handle, the type index and the bytes, in this order: the record has 8 more bytes
  than the value, its first 4 bytes read back as the handle, the next 4 as the type index,
  the rest are the bytes. If the queue admits the record, it is appended to \<open>eventQueue\<close>
  and the result is true; if not, the harness is as it was and the result is false.
\<close>

theorem postEvent_contract:
  "(coerce handle v = None \<longrightarrow> postEvent coerce handle v a = (False, a))
   \<and> (\<forall>typeIndex bytes. coerce handle v = Some (typeIndex, bytes)
          \<and> 8 + length bytes < 2 ^ 32 \<longrightarrow>
        (let q = eventQueue a;
             r = eventRecord handle (of_nat typeIndex) bytes
         in postEvent coerce handle v a =
              (if hasSpaceFor q (fifoItems q) (8 + length bytes)
               then (True, a\<lparr>eventQueue := q\<lparr>fifoItems := fifoItems q @ [r]\<rparr>\<rparr>)
               else (False, a))
            \<and> length r = 8 + length bytes
            \<and> readNativeEndian32 r = handle
            \<and> readNativeEndian32 (drop 4 r) = of_nat typeIndex
            \<and> drop 8 r = bytes))"
  by (simp add: postEvent_def push_def Let_def eventRecord_def readNativeEndian32_write)

lemma collectMIDIEvents_ok:
  "collectMIDIEvents es a = (True, a') \<Longrightarrow>
     a' = a\<lparr>midiOutputMessages := midiOutputMessages a @ map midiOutputMessage es\<rparr>"
proof (induction es arbitrary: a)
  case Nil
  then show ?case by simp
next
  case (Cons e es)
  show ?case
  proof (cases "3 \<le> length (eventData e)")
    case True
    with Cons.prems have "collectMIDIEvents es
        (a\<lparr>midiOutputMessages := midiOutputMessages a @ [midiOutputMessage e]\<rparr>) = (True, a')"
      by (simp add: midiOutputMessage_def)
    from Cons.IH [OF this] show ?thesis by simp
  next
    case False
    with Cons.prems show ?thesis by simp
  qed
qed

lemma iterateMIDIEndpoint_ok:
  assumes "iterateMIDIEndpoint p h a = (True, a')"
  shows "midiOutputMessages a' = midiOutputMessages a
           @ map midiOutputMessage (outputEvents p (performerCalls a) h)"
    and "performerCalls a' = performerCalls a @ [IterateOutputEvents h]"
  using collectMIDIEvents_ok [OF assms [unfolded iterateMIDIEndpoint_def]]
  by (simp_all add: logCall_def)

lemma runAll_iterateMIDIEndpoint:
  "runAll (iterateMIDIEndpoint p) hs a = (True, a') \<Longrightarrow>
     midiOutputMessages a' = midiOutputMessages a @ midiEventsCollected p hs (performerCalls a)"
proof (induction hs arbitrary: a)
  case Nil
  then show ?case by simp
next
  case (Cons h hs)
  obtain ok a1 where r: "iterateMIDIEndpoint p h a = (ok, a1)"
    by (cases "iterateMIDIEndpoint p h a")
  with Cons.prems have ok: "ok" and rest: "runAll (iterateMIDIEndpoint p) hs a1 = (True, a')"
    by (auto simp: andThen_cases split: if_splits)
  show ?case
    using Cons.IH [OF rest] iterateMIDIEndpoint_ok [OF r [unfolded ok [THEN eqTrueI]]]
    by simp
qed

lemma delivered_iterateMIDIEndpoint:
  "midiOutputDelivered (snd (iterateMIDIEndpoint p h a)) = midiOutputDelivered a"
proof -
  have *: "midiOutputDelivered (snd (collectMIDIEvents es b)) = midiOutputDelivered b" for es b
    by (induction es arbitrary: b) simp_all
  show ?thesis by (simp add: iterateMIDIEndpoint_def logCall_def *)
qed

text \<open>
  Claim C4. Without a callback in the block, \<open>dispatchMIDIOutputEvents\<close> does nothing: no
  endpoint is iterated and the harness is as it was. With a callback, the messages handed
  to it by one call extend those handed over before, their frame offsets are in
  non-decreasing order, and, when the call completes, the message vector is empty again and
  the messages delivered with any one frame offset are exactly the collected messages of
  that offset in the order they were collected: those still in the vector, then the
  events of the MIDI output endpoints in registration order, each endpoint's events in
  emission order.
\<close>

theorem midi_output_dispatch:
  "(\<not> onMidiOutputMessage block \<longrightarrow> dispatchMIDIOutputEvents p block a = (True, a))
   \<and> (onMidiOutputMessage block \<longrightarrow>
        (let r = dispatchMIDIOutputEvents p block a;
             new = drop (length (midiOutputDelivered a)) (midiOutputDelivered (snd r));
             collected = midiOutputMessages a
                           @ midiEventsCollected p (midiOutputEndpoints a) (performerCalls a)
         in midiOutputDelivered (snd r) = midiOutputDelivered a @ new
            \<and> sorted (map fst new)
            \<and> (fst r \<longrightarrow> midiOutputMessages (snd r) = []
                  \<and> mset new = mset (map (\<lambda>m. (snd m, fst m)) collected)
                  \<and> (\<forall>k. filter (\<lambda>m. fst m = k) new
                          = map (\<lambda>m. (snd m, fst m)) (filter (\<lambda>m. snd m = k) collected)))))"
proof (intro conjI impI)
  show "dispatchMIDIOutputEvents p block a = (True, a)" if "\<not> onMidiOutputMessage block"
    using that by (simp add: dispatchMIDIOutputEvents_def)
next
  assume cb: "onMidiOutputMessage block"
  obtain ok a1 where r: "runAll (iterateMIDIEndpoint p) (midiOutputEndpoints a) a = (ok, a1)"
    by (cases "runAll (iterateMIDIEndpoint p) (midiOutputEndpoints a) a")
  have d1: "midiOutputDelivered a1 = midiOutputDelivered a"
    using runAll_inv [where obs = midiOutputDelivered and run = "iterateMIDIEndpoint p",
        OF delivered_iterateMIDIEndpoint, of "midiOutputEndpoints a" a]
    by (simp add: r)
  let ?collected = "midiOutputMessages a
                      @ midiEventsCollected p (midiOutputEndpoints a) (performerCalls a)"
  let ?swap = "\<lambda>m :: ShortMessage \<times> 32 word. (snd m, fst m)"
  show "let r = dispatchMIDIOutputEvents p block a;
            new = drop (length (midiOutputDelivered a)) (midiOutputDelivered (snd r));
            collected = ?collected
        in midiOutputDelivered (snd r) = midiOutputDelivered a @ new
           \<and> sorted (map fst new)
           \<and> (fst r \<longrightarrow> midiOutputMessages (snd r) = []
                 \<and> mset new = mset (map ?swap collected)
                 \<and> (\<forall>k. filter (\<lambda>m. fst m = k) new
                         = map ?swap (filter (\<lambda>m. snd m = k) collected)))"
  proof (cases ok)
    case False
    then show ?thesis
      using cb r d1 by (simp add: dispatchMIDIOutputEvents_def Let_def)
  next
    case True
    have m1: "midiOutputMessages a1 = ?collected"
      using runAll_iterateMIDIEndpoint [of p "midiOutputEndpoints a" a a1] r True by simp
    have key: "map fst (map ?swap xs) = map snd xs" for xs
      by simp
    have flt: "filter (\<lambda>m. fst m = k) (map ?swap xs) = map ?swap (filter (\<lambda>m. snd m = k) xs)" for k xs
      by (simp add: filter_map comp_def)
    show ?thesis
    proof (cases "midiOutputMessages a1 = []")
      case True
      then show ?thesis
        using cb r d1 \<open>ok\<close> m1 by (simp add: dispatchMIDIOutputEvents_def Let_def)
    next
      case False
      have res: "dispatchMIDIOutputEvents p block a
                  = (True, a1\<lparr>midiOutputDelivered := midiOutputDelivered a
                                  @ map ?swap (sort_key snd ?collected),
                               midiOutputMessages := []\<rparr>)"
        using cb r d1 \<open>ok\<close> False m1 by (simp add: dispatchMIDIOutputEvents_def)
      show ?thesis
        unfolding res Let_def
        by (simp add: key flt sort_key_stable del: map_map)
    qed
  qed
qed

lemma moveOutputEventToQueue_result:
  "moveOutputEventToQueue h (dataTypeIndex e) (frameOffset e) (eventData e) a =
     (if outputEventFits e a
      then (True, a\<lparr>outputEventQueue := (outputEventQueue a)
                        \<lparr>fifoItems := queued a @ [outputEventRecord h (numFramesProcessed a) e]\<rparr>,
                     dispatcherTriggers := dispatcherTriggers a + 1\<rparr>)
      else (False, a\<lparr>dispatcherTriggers := dispatcherTriggers a + 1\<rparr>))"
  by (simp add: moveOutputEventToQueue_def push_def Let_def outputEventFits_def queued_def
      outputEventRecord_def)

lemma andThen_assoc: "andThen (andThen r f) g = andThen r (\<lambda>w. andThen (f w) g)"
  by (simp add: andThen_def)

lemma stagesBeforeCapture_output:
  "stagesBeforeCapture p block replaceOutput a =
     andThen (stagesBeforeOutput p block a) (\<lambda>a.
       runAll (runPostRender p block)
         (if replaceOutput then postRenderReplaceFunctions a else postRenderAddFunctions a) a)"
  by (simp add: stagesBeforeCapture_def stagesBeforeOutput_def inputStages_def Let_def
      andThen_assoc)

lemma andThen_obs:
  assumes "obs (snd r) = v" and "\<And>w. obs (snd (f w)) = obs w"
  shows "obs (snd (andThen r f)) = v"
  using assms by (cases "fst r") (simp_all add: andThen_cases)

lemma steady_inputStages: "steady (snd (inputStages block a)) = steady a"
  unfolding inputStages_def Let_def
  by (intro andThen_obs [where obs = steady])
     (simp_all add: steady_logCall steady_handleEvents steady_handleValues
        runAll_inv [where obs = steady, OF steady_runPreRender])

lemma hostOutput_inputStages: "hostOutput (snd (inputStages block a)) = hostOutput a"
  unfolding inputStages_def Let_def
  by (intro andThen_obs [where obs = hostOutput])
     (simp_all add: hostOutput_handleEvents hostOutput_handleValues
        runAll_inv [where obs = hostOutput, OF hostOutput_runPreRender])

lemma steady_Advance:
  "steady (logCall Advance a) = (routing a, numFramesProcessed a, advances a + 1)"
  by (simp add: steady_def routing_def advances_def logCall_def)

lemma stagesBeforeOutput_effect:
  "routing (snd (stagesBeforeOutput p block a)) = routing a"
  "numFramesProcessed (snd (stagesBeforeOutput p block a)) = numFramesProcessed a"
  "advances (snd (stagesBeforeOutput p block a)) \<le> advances a + 1"
  "fst (stagesBeforeOutput p block a) \<Longrightarrow>
     advances (snd (stagesBeforeOutput p block a)) = advances a + 1"
  "hostOutput (snd (stagesBeforeOutput p block a)) = hostOutput a"
proof -
  define r where "r = inputStages block a"
  define b where "b = snd r"
  define c where "c = snd (dispatchMIDIOutputEvents p block (logCall Advance (addMIDIInputs block b)))"
  have sb: "steady b = steady a" and hb: "hostOutput b = hostOutput a"
    by (simp_all add: b_def r_def steady_inputStages hostOutput_inputStages)
  have "steady c = steady (logCall Advance (addMIDIInputs block b))"
    by (simp add: c_def steady_dispatchMIDIOutputEvents)
  also have "\<dots> = (routing (addMIDIInputs block b), numFramesProcessed (addMIDIInputs block b),
                     advances (addMIDIInputs block b) + 1)"
    by (rule steady_Advance)
  also have "\<dots> = (routing a, numFramesProcessed a, advances a + 1)"
    using steady_addMIDIInputs [of block b] sb by (simp add: steady_def)
  finally have sc: "steady c = (routing a, numFramesProcessed a, advances a + 1)" .
  have hc: "hostOutput c = hostOutput a"
    by (simp add: c_def hostOutput_dispatchMIDIOutputEvents hostOutput_addMIDIInputs hb)
  have res: "stagesBeforeOutput p block a
               = (if fst r then dispatchMIDIOutputEvents p block (logCall Advance (addMIDIInputs block b))
                  else (False, b))"
    by (simp add: stagesBeforeOutput_def andThen_cases r_def b_def)
  show "routing (snd (stagesBeforeOutput p block a)) = routing a"
    using sb sc by (simp add: res steady_def c_def)
  show "numFramesProcessed (snd (stagesBeforeOutput p block a)) = numFramesProcessed a"
    using sb sc by (simp add: res steady_def c_def)
  show "advances (snd (stagesBeforeOutput p block a)) \<le> advances a + 1"
    using sb sc by (simp add: res steady_def c_def)
  show "advances (snd (stagesBeforeOutput p block a)) = advances a + 1"
    if "fst (stagesBeforeOutput p block a)"
    using sb sc that by (simp add: res steady_def c_def split: if_splits)
  show "hostOutput (snd (stagesBeforeOutput p block a)) = hostOutput a"
    using hb hc by (simp add: res c_def)
qed

lemma stagesBeforeCapture_effect:
  "routing (snd (stagesBeforeCapture p block r a)) = routing a"
  "numFramesProcessed (snd (stagesBeforeCapture p block r a)) = numFramesProcessed a"
  "advances (snd (stagesBeforeCapture p block r a)) \<le> advances a + 1"
  "fst (stagesBeforeCapture p block r a) \<Longrightarrow>
     advances (snd (stagesBeforeCapture p block r a)) = advances a + 1"
proof -
  let ?b = "snd (stagesBeforeOutput p block a)"
  have st: "steady (snd (stagesBeforeCapture p block r a)) = steady ?b"
    by (simp add: stagesBeforeCapture_output andThen_cases
        runAll_inv [where obs = steady, OF steady_runPostRender])
  have ok: "fst (stagesBeforeOutput p block a)" if "fst (stagesBeforeCapture p block r a)"
    using that by (simp add: stagesBeforeCapture_output andThen_cases split: if_splits)
  show "routing (snd (stagesBeforeCapture p block r a)) = routing a"
    using st stagesBeforeOutput_effect(1) [of p block a] by (simp add: steady_def)
  show "numFramesProcessed (snd (stagesBeforeCapture p block r a)) = numFramesProcessed a"
    using st stagesBeforeOutput_effect(2) [of p block a] by (simp add: steady_def)
  show "advances (snd (stagesBeforeCapture p block r a)) \<le> advances a + 1"
    using st stagesBeforeOutput_effect(3) [of p block a] by (simp add: steady_def)
  show "advances (snd (stagesBeforeCapture p block r a)) = advances a + 1"
    if "fst (stagesBeforeCapture p block r a)"
    using st stagesBeforeOutput_effect(4) [OF ok [OF that]] by (simp add: steady_def)
qed

lemma processBlock_effect:
  "routing (snd (processBlock p block r a)) = routing a"
  "numFramesProcessed (snd (processBlock p block r a)) =
     numFramesProcessed a
       + (if fst (processBlock p block r a) then of_nat (numFrames (audioOutput block)) else 0)"
  "advances (snd (processBlock p block r a)) \<le> advances a + 1"
  "fst (processBlock p block r a) \<Longrightarrow> advances (snd (processBlock p block r a)) = advances a + 1"
proof -
  let ?s = "stagesBeforeCapture p block r a"
  let ?m = "moveOutputEventsToQueue p (snd ?s)"
  have m: "routing ?m = routing (snd ?s)" "numFramesProcessed ?m = numFramesProcessed (snd ?s)"
    "advances ?m = advances (snd ?s)"
    using steady_moveOutputEventsToQueue [of p "snd ?s"] by (simp_all add: steady_def)
  have upd: "routing (x\<lparr>numFramesProcessed := v\<rparr>) = routing x"
    "advances (x\<lparr>numFramesProcessed := v\<rparr>) = advances x" for x :: "'a AudioMIDIPerformer" and v
    by (simp_all add: routing_def advances_def)
  show "routing (snd (processBlock p block r a)) = routing a"
    by (simp add: processBlock_stages andThen_cases m upd stagesBeforeCapture_effect)
  show "numFramesProcessed (snd (processBlock p block r a)) =
     numFramesProcessed a
       + (if fst (processBlock p block r a) then of_nat (numFrames (audioOutput block)) else 0)"
    by (simp add: processBlock_stages andThen_cases m upd stagesBeforeCapture_effect)
  show "advances (snd (processBlock p block r a)) \<le> advances a + 1"
    using stagesBeforeCapture_effect(3) [of p block r a]
    by (simp add: processBlock_stages andThen_cases m upd)
  show "advances (snd (processBlock p block r a)) = advances a + 1"
    if "fst (processBlock p block r a)"
    using that
    by (simp add: processBlock_stages andThen_cases m upd stagesBeforeCapture_effect
        split: if_splits)
qed

lemma ceil_le_iff:
  assumes "0 < (M::nat)"
  shows "((n + M - 1) div M \<le> j) = (n \<le> j * M)"
proof -
  have "((n + M - 1) div M < Suc j) = (n + M - 1 < Suc j * M)"
    using assms by (simp only: div_less_iff_less_mult)
  also have "\<dots> = (n \<le> j * M)"
    using assms by auto
  finally show ?thesis by (simp only: less_Suc_eq_le)
qed

lemma subBlock_Some:
  assumes "subBlock block s m = Some sub"
  shows "audioOutput sub = (audioOutput block)\<lparr>frameStart := frameStart (audioOutput block) + s,
                                               numFrames := m\<rparr>"
    and "audioInput sub = (audioInput block)\<lparr>frameStart := frameStart (audioInput block) + s,
                                             numFrames := m\<rparr>"
    and "blockMidiMessages sub = (if s = 0 then blockMidiMessages block else [])"
    and "onMidiOutputMessage sub = onMidiOutputMessage block"
    and "s + m \<le> numFrames (audioOutput block)"
  using assms
  by (auto simp: subBlock_def getFrameRange_def split: option.splits if_splits)


lemma routing_fields:
  assumes "routing a' = routing a"
  shows "performer a' = performer a" "currentMaxBlockSize a' = currentMaxBlockSize a"
    "postRenderReplaceFunctions a' = postRenderReplaceFunctions a"
  using assms by (simp_all add: routing_def)

lemma processFrom_Enter_small:
  assumes "performer a = Some p" and "numFrames (audioOutput block) \<le> currentMaxBlockSize a"
  shows "processFrom Enter block r a = Some (processBlock p block r a)"
  using assms by (subst processFrom.simps) simp


lemma processFrom_Loop:
  assumes M: "0 < M"
  shows "performer a = Some p \<Longrightarrow> currentMaxBlockSize a = M \<Longrightarrow>
         processFrom (Loop (min (numFrames (audioOutput block)) (j * M))) block r a
           = Some (runAll (processSubBlock p block r M)
                     [j ..< (numFrames (audioOutput block) + M - 1) div M] a)"
proof (induction "(numFrames (audioOutput block) + M - 1) div M - j" arbitrary: j a)
  case 0
  then have "(numFrames (audioOutput block) + M - 1) div M \<le> j" by simp
  then have le: "numFrames (audioOutput block) \<le> j * M"
    using ceil_le_iff [OF M] by blast
  then have "min (numFrames (audioOutput block)) (j * M) = numFrames (audioOutput block)"
    by simp
  then show ?case
    using \<open>(numFrames (audioOutput block) + M - 1) div M \<le> j\<close>
    by (subst processFrom.simps) simp
next
  case (Suc d)
  let ?n = "numFrames (audioOutput block)"
  let ?c = "(?n + M - 1) div M"
  have jc: "j < ?c" using Suc.hyps(2) by simp
  then have lt: "j * M < ?n"
    using ceil_le_iff [OF M, of ?n j] by simp
  then have start: "min ?n (j * M) = j * M" by simp
  have next_start: "j * M + min M (?n - j * M) = min ?n (Suc j * M)"
    using lt by (simp add: min_def; arith)
  have upt: "[j ..< ?c] = j # [Suc j ..< ?c]"
    using jc by (simp add: upt_conv_Cons)
  show ?case
  proof (cases "subBlock block (j * M) (min M (?n - j * M))")
    case None
    then show ?thesis
      unfolding start upt using lt Suc.prems
      by (subst processFrom.simps) (simp add: processSubBlock_def Let_def)
  next
    case (Some sub)
    have "numFrames (audioOutput sub) \<le> currentMaxBlockSize a"
      using subBlock_Some(1) [OF Some] Suc.prems by simp
    then have enter: "processFrom Enter sub r a = Some (processBlock p sub r a)"
      using Suc.prems by (intro processFrom_Enter_small)
    define res where "res = processBlock p sub r a"
    have step: "processSubBlock p block r M j a = res"
      by (simp add: processSubBlock_def Some res_def)
    have keep: "performer (snd res) = Some p" "currentMaxBlockSize (snd res) = M"
      using routing_fields [OF processBlock_effect(1) [of p sub r a]] Suc.prems
      by (simp_all add: res_def)
    have d: "d = ?c - Suc j" using Suc.hyps(2) by simp
    have IH: "processFrom (Loop (min ?n (Suc j * M))) block r (snd res)
                = Some (runAll (processSubBlock p block r M) [Suc j ..< ?c] (snd res))"
      using Suc.hyps(1) [OF d keep] .
    have "processFrom (Loop (j * M)) block r a
            = (if \<not> fst res then Some (False, snd res)
               else processFrom (Loop (min ?n (Suc j * M))) block r (snd res))"
      using lt Suc.prems
      by (subst processFrom.simps)
         (simp add: Let_def Some enter res_def [symmetric] next_start del: mult_Suc)
    also have "\<dots> = Some (runAll (processSubBlock p block r M) [j ..< ?c] a)"
      unfolding upt by (simp add: IH step andThen_cases del: mult_Suc)
    finally show ?thesis unfolding start .
  qed
qed

lemma process_split:
  assumes "performer a = Some p" and "currentMaxBlockSize a = M" and "0 < M"
  shows "process block r a =
           Some (if numFrames (audioOutput block) > M
                 then runAll (processSubBlock p block r M)
                        [0 ..< (numFrames (audioOutput block) + M - 1) div M] a
                 else processBlock p block r a)"
proof (cases "numFrames (audioOutput block) > M")
  case True
  have "process block r a = processFrom (Loop 0) block r a"
    unfolding process_def using assms True by (subst processFrom.simps) simp
  also have "\<dots> = Some (runAll (processSubBlock p block r M)
                        [0 ..< (numFrames (audioOutput block) + M - 1) div M] a)"
    using processFrom_Loop [OF assms(3) assms(1) assms(2), of block 0 r] by simp
  finally show ?thesis using True by simp
next
  case False
  then show ?thesis
    unfolding process_def using assms by (subst processFrom.simps) simp
qed








lemma advances_processSubBlock:
  "advances (snd (processSubBlock p block r M k a)) \<le> advances a + 1"
  "fst (processSubBlock p block r M k a) \<Longrightarrow>
     advances (snd (processSubBlock p block r M k a)) = advances a + 1"
  using processBlock_effect(3,4)
  by (auto simp: processSubBlock_def split: option.splits)








lemma moveToQueue_result:
  "moveToQueue h e a =
     (if outputEventFits e a
      then (True, a\<lparr>outputEventQueue := (outputEventQueue a)
                        \<lparr>fifoItems := queued a @ [outputEventRecord h (numFramesProcessed a) e]\<rparr>,
                     dispatcherTriggers := dispatcherTriggers a + 1\<rparr>)
      else (False, a\<lparr>dispatcherTriggers := dispatcherTriggers a + 1\<rparr>))"
  unfolding moveToQueue_def by (rule moveOutputEventToQueue_result)

lemma iterateOutputEvents_fitting:
  "outputEventsFit h pre a \<Longrightarrow>
     iterateOutputEvents (moveToQueue h) (pre @ es) a
       = iterateOutputEvents (moveToQueue h) es (iterateOutputEvents (moveToQueue h) pre a)
     \<and> queued (iterateOutputEvents (moveToQueue h) pre a)
       = queued a @ map (outputEventRecord h (numFramesProcessed a)) pre
     \<and> numFramesProcessed (iterateOutputEvents (moveToQueue h) pre a) = numFramesProcessed a"
proof (induction pre arbitrary: a)
  case Nil
  show ?case by simp
next
  case (Cons x pre)
  define a1 where "a1 = snd (moveToQueue h x a)"
  have fit: "outputEventFits x a" and rest: "outputEventsFit h pre a1"
    using Cons.prems by (simp_all add: a1_def)
  have step: "moveToQueue h x a = (True, a1)"
    using fit by (simp add: a1_def moveToQueue_result)
  have a1: "queued a1 = queued a @ [outputEventRecord h (numFramesProcessed a) x]"
    "numFramesProcessed a1 = numFramesProcessed a"
    using fit by (simp_all add: a1_def moveToQueue_result queued_def)
  show ?case
    using Cons.IH [OF rest] by (simp add: step a1)
qed

lemma queued_moveToQueue: "\<exists>new. queued (snd (moveToQueue h e a)) = queued a @ new"
  by (simp add: moveToQueue_result queued_def)

lemma queued_iterateOutputEvents:
  "\<exists>new. queued (iterateOutputEvents (moveToQueue h) es a) = queued a @ new"
proof (induction es arbitrary: a)
  case Nil
  show ?case by simp
next
  case (Cons e es)
  obtain ok a1 where s: "moveToQueue h e a = (ok, a1)" by (cases "moveToQueue h e a")
  obtain n1 where n1: "queued a1 = queued a @ n1"
    using queued_moveToQueue [of h e a] by (auto simp: s)
  obtain n2 where n2: "queued (iterateOutputEvents (moveToQueue h) es a1) = queued a1 @ n2"
    using Cons [of a1] by blast
  show ?case
    by (cases ok) (simp_all add: s n1 n2)
qed

lemma moveOutputEventsToQueue_fold:
  "moveOutputEventsToQueue p a =
     fold (\<lambda>handle a'. iterateOutputEvents (moveToQueue (fst handle))
                          (outputEvents p (performerCalls a') (fst handle))
                          (logCall (IterateOutputEvents (fst handle)) a'))
          (eventOutputHandles a) a"
  unfolding moveOutputEventsToQueue_def moveToQueue_def ..

lemma queued_fold:
  "\<exists>new. queued (fold (\<lambda>handle a'. iterateOutputEvents (moveToQueue (fst handle))
                          (outputEvents p (performerCalls a') (fst handle))
                          (logCall (IterateOutputEvents (fst handle)) a')) hs a) = queued a @ new"
proof (induction hs arbitrary: a)
  case Nil
  show ?case by simp
next
  case (Cons h hs)
  let ?a1 = "iterateOutputEvents (moveToQueue (fst h)) (outputEvents p (performerCalls a) (fst h))
               (logCall (IterateOutputEvents (fst h)) a)"
  obtain n1 where n1: "queued ?a1 = queued (logCall (IterateOutputEvents (fst h)) a) @ n1"
    using queued_iterateOutputEvents by blast
  have l: "queued (logCall (IterateOutputEvents (fst h)) a) = queued a"
    by (simp add: queued_def logCall_def)
  obtain n2 where n2: "queued (fold (\<lambda>handle a'. iterateOutputEvents (moveToQueue (fst handle))
                          (outputEvents p (performerCalls a') (fst handle))
                          (logCall (IterateOutputEvents (fst handle)) a')) hs ?a1) = queued ?a1 @ n2"
    using Cons [of ?a1] by blast
  show ?case by (simp add: n2 n1 l)
qed

text \<open>
  Claim C10. If the queue does not admit an event's record, \<open>moveOutputEventToQueue\<close> returns
  false and changes nothing but the count of dispatcher triggers. When the events before it
  on the same endpoint were all admitted, the iteration of that endpoint ends there: the
  queue holds what it held before followed by the records of those earlier events, so the
  refused event and all that follow it on the endpoint are dropped. What was queued before
  the capture is still at the front of the queue after it. Whether a block succeeds is
  decided before the capture: \<open>processBlock\<close> returns true exactly when the stages before the
  capture completed. (Event records whose size fits 32 bits.)
\<close>

theorem output_event_overflow:
  "(\<not> outputEventFits e a \<longrightarrow>
      moveOutputEventToQueue h (dataTypeIndex e) (frameOffset e) (eventData e) a
        = (False, a\<lparr>dispatcherTriggers := dispatcherTriggers a + 1\<rparr>))
   \<and> (outputEventsFit h pre a \<and> \<not> outputEventFits e (iterateOutputEvents (moveToQueue h) pre a)
        \<and> (\<forall>x \<in> set pre. 16 + length (eventData x) < 2 ^ 32) \<longrightarrow>
        (let a1 = iterateOutputEvents (moveToQueue h) pre a
         in iterateOutputEvents (moveToQueue h) (pre @ e # rest) a
              = a1\<lparr>dispatcherTriggers := dispatcherTriggers a1 + 1\<rparr>
            \<and> queued (iterateOutputEvents (moveToQueue h) (pre @ e # rest) a)
              = queued a @ map (outputEventRecord h (numFramesProcessed a)) pre))
   \<and> ((\<forall>calls handle. \<forall>x \<in> set (outputEvents p calls handle).
          16 + length (eventData x) < 2 ^ 32) \<longrightarrow>
        take (length (queued a)) (queued (moveOutputEventsToQueue p a)) = queued a)
   \<and> fst (processBlock p block r a) = fst (stagesBeforeCapture p block r a)"
proof (intro conjI impI)
  assume "\<not> outputEventFits e a"
  then show "moveOutputEventToQueue h (dataTypeIndex e) (frameOffset e) (eventData e) a
        = (False, a\<lparr>dispatcherTriggers := dispatcherTriggers a + 1\<rparr>)"
    by (simp add: moveOutputEventToQueue_result)
next
  assume h: "outputEventsFit h pre a \<and> \<not> outputEventFits e (iterateOutputEvents (moveToQueue h) pre a)
        \<and> (\<forall>x \<in> set pre. 16 + length (eventData x) < 2 ^ 32)"
  define a1 where "a1 = iterateOutputEvents (moveToQueue h) pre a"
  note pre = iterateOutputEvents_fitting [of h pre a "e # rest", OF h [THEN conjunct1], folded a1_def]
  have full: "\<not> outputEventFits e a1" using h by (simp add: a1_def)
  have "iterateOutputEvents (moveToQueue h) (e # rest) a1
          = a1\<lparr>dispatcherTriggers := dispatcherTriggers a1 + 1\<rparr>"
    using full by (simp add: moveToQueue_result)
  then have res: "iterateOutputEvents (moveToQueue h) (pre @ e # rest) a
                    = a1\<lparr>dispatcherTriggers := dispatcherTriggers a1 + 1\<rparr>"
    using pre by simp
  have "queued (a1\<lparr>dispatcherTriggers := dispatcherTriggers a1 + 1\<rparr>) = queued a1"
    by (simp add: queued_def)
  then show "let a1 = iterateOutputEvents (moveToQueue h) pre a
         in iterateOutputEvents (moveToQueue h) (pre @ e # rest) a
              = a1\<lparr>dispatcherTriggers := dispatcherTriggers a1 + 1\<rparr>
            \<and> queued (iterateOutputEvents (moveToQueue h) (pre @ e # rest) a)
              = queued a @ map (outputEventRecord h (numFramesProcessed a)) pre"
    unfolding Let_def a1_def [symmetric] res using pre by simp
next
  obtain new where "queued (moveOutputEventsToQueue p a) = queued a @ new"
    unfolding moveOutputEventsToQueue_fold using queued_fold by blast
  then show "take (length (queued a)) (queued (moveOutputEventsToQueue p a)) = queued a"
    by simp
next
  show "fst (processBlock p block r a) = fst (stagesBeforeCapture p block r a)"
    by (simp add: processBlock_stages andThen_cases)
qed

lemma andThen_fst: "fst r \<Longrightarrow> andThen r f = f (snd r)"
  by (simp add: andThen_def)

lemma fst_andThen: "fst (andThen r f) = (fst r \<and> fst (f (snd r)))"
  by (simp add: andThen_def)

lemma runAll_single: "runAll run [f] = run f"
proof (rule ext)
  fix w show "runAll run [f] w = run f w"
    by (cases "run f w") (simp add: andThen_def)
qed

lemma writeChannel_outside:
  "\<not> inFrames v i \<Longrightarrow> writeChannel v ch s mem c i = mem c i"
  by (auto simp add: writeChannel_def inFrames_def)

lemma clearChannels_outside:
  "\<not> inFrames v i \<Longrightarrow> clearChannels v lo hi mem c i = mem c i"
  by (auto simp add: clearChannels_def inFrames_def)

lemma copyChannels_outside:
  "\<not> inFrames v i \<Longrightarrow> snd (copyChannels v n src cs mem) c i = mem c i"
  by (induction cs arbitrary: mem) (simp_all add: writeChannel_outside)

lemma addChannels_outside:
  "\<not> inFrames v i \<Longrightarrow> snd (addChannels v n src cs mem) c i = mem c i"
  by (induction cs arbitrary: mem) (simp_all add: writeChannel_outside)

lemma clearListed_outside:
  "\<not> inFrames v i \<Longrightarrow> snd (clearListed v chans mem) c i = mem c i"
  by (induction chans arbitrary: mem) (simp_all add: clearChannels_outside)

lemma duplicateFirst_outside:
  "\<not> inFrames v i \<Longrightarrow> duplicateFirst v first cs mem c i = mem c i"
  by (induction cs arbitrary: mem) (simp_all add: writeChannel_outside)

lemma clearAbove_outside:
  "\<not> inFrames v i \<Longrightarrow> clearAbove v h mem c i = mem c i"
  by (simp add: clearAbove_def Let_def clearChannels_outside)

lemmas outside =
  writeChannel_outside clearChannels_outside copyChannels_outside addChannels_outside
  clearListed_outside duplicateFirst_outside clearAbove_outside

lemma runPostRender_outside:
  "\<not> inFrames (audioOutput block) i \<Longrightarrow>
     hostOutput (snd (runPostRender p block f a)) c i = hostOutput a c i"
  by (cases f) (simp_all add: Let_def case_prod_beta outside split: list.splits)

lemma runAll_postRender_outside:
  "\<not> inFrames (audioOutput block) i \<Longrightarrow>
     hostOutput (snd (runAll (runPostRender p block) fs a)) c i = hostOutput a c i"
  by (induction fs arbitrary: a) (simp_all add: andThen_cases runPostRender_outside)

lemma processBlock_outside:
  assumes "\<not> inFrames (audioOutput block) i"
  shows "hostOutput (snd (processBlock p block r a)) c i = hostOutput a c i"
proof -
  have "hostOutput (snd (stagesBeforeCapture p block r a)) c i = hostOutput a c i"
    using assms
    by (simp add: stagesBeforeCapture_output andThen_cases runAll_postRender_outside
        stagesBeforeOutput_effect(5))
  then show ?thesis
    by (simp add: processBlock_stages andThen_cases hostOutput_moveOutputEventsToQueue)
qed

lemma highestUsedChannel_le: "highestUsedChannel used \<le> length used"
proof -
  have "fold (\<lambda>i h. if used ! i then Suc i else h) [0 ..< n] h0 \<le> max h0 n" for n h0
  proof (induction n)
    case 0
    show ?case by simp
  next
    case (Suc n)
    then show ?case by (simp add: max_def split: if_splits)
  qed
  from this [of "length used" 0] show ?thesis
    unfolding highestUsedChannel_def Suc_eq_plus1 [symmetric] by simp
qed

lemma clearChannels_zero_kept:
  "mem c i = 0 \<Longrightarrow> clearChannels v lo hi mem c i = 0"
  by (simp add: clearChannels_def)

lemma clearListed_zero_kept:
  "mem c i = 0 \<Longrightarrow> snd (clearListed v chans mem) c i = 0"
  by (induction chans arbitrary: mem) (simp_all add: clearChannels_zero_kept)

lemma clearListed_zero:
  "fst (clearListed v chans mem) \<Longrightarrow> c \<in> set chans \<Longrightarrow> inFrames v i \<Longrightarrow>
     snd (clearListed v chans mem) c i = 0"
proof (induction chans arbitrary: mem)
  case Nil
  then show ?case by simp
next
  case (Cons ch chans)
  have ok: "ch < numChannels v" and rest: "fst (clearListed v chans (clearChannels v ch (ch + 1) mem))"
    using Cons.prems(1) by (simp_all split: if_splits)
  show ?case
  proof (cases "c = ch")
    case True
    have "clearChannels v ch (ch + 1) mem c i = 0"
      using True Cons.prems(3) by (simp add: clearChannels_def inFrames_def)
    then show ?thesis using ok by (simp add: clearListed_zero_kept)
  next
    case False
    then have "c \<in> set chans" using Cons.prems(2) by simp
    from Cons.IH [OF rest this Cons.prems(3)] show ?thesis using ok by simp
  qed
qed

lemma clearAbove_zero_kept: "mem c i = 0 \<Longrightarrow> clearAbove v h mem c i = 0"
  by (simp add: clearAbove_def Let_def clearChannels_zero_kept)

lemma clearAbove_zero:
  "h \<le> c \<Longrightarrow> c < numChannels v \<Longrightarrow> inFrames v i \<Longrightarrow> clearAbove v h mem c i = 0"
  by (simp add: clearAbove_def Let_def clearChannels_def inFrames_def)

lemma clearAction_zero:
  assumes ok: "fst (runPostRender p block (outputChannelClearAction used) a)"
    and c: "c < numChannels (audioOutput block)" and u: "unusedChannel used c"
    and i: "inFrames (audioOutput block) i"
  shows "hostOutput (snd (runPostRender p block (outputChannelClearAction used) a)) c i = 0"
proof -
  let ?h = "highestUsedChannel used"
  let ?out = "audioOutput block"
  let ?clear = "filter (\<lambda>i. \<not> used ! i) [0 ..< ?h]"
  have low: "\<not> used ! c" if "c < ?h"
    using that u highestUsedChannel_le [of used] by (simp add: unusedChannel_def)
  consider (none) "?h = 0" | (dense) "?h \<noteq> 0" "?clear = []" | (sparse) "?h \<noteq> 0" "?clear \<noteq> []"
    by blast
  then show ?thesis
  proof cases
    case none
    then show ?thesis
      using c i by (simp add: outputChannelClearAction_def Let_def clearChannels_def inFrames_def)
  next
    case dense
    have "?h \<le> c"
    proof (rule ccontr)
      assume "\<not> ?h \<le> c"
      then have "c < ?h" by simp
      then have "c \<in> set ?clear" using low by simp
      then show False using dense(2) by simp
    qed
    then show ?thesis
      using dense c i by (simp add: outputChannelClearAction_def Let_def clearAbove_zero)
  next
    case sparse
    have act: "outputChannelClearAction used = ClearChannelsAndAbove ?clear ?h"
      using sparse by (simp add: outputChannelClearAction_def Let_def)
    have listed: "fst (clearListed ?out ?clear (hostOutput a))"
      using ok unfolding act by (simp add: Let_def case_prod_beta split: if_splits)
    have res: "hostOutput (snd (runPostRender p block (outputChannelClearAction used) a))
                 = clearAbove ?out ?h (snd (clearListed ?out ?clear (hostOutput a)))"
      unfolding act using listed by (simp add: Let_def case_prod_beta)
    show ?thesis
    proof (cases "c < ?h")
      case True
      then have "c \<in> set ?clear" using low by simp
      from clearListed_zero [OF listed this i] show ?thesis
        unfolding res by (rule clearAbove_zero_kept)
    next
      case False
      then show ?thesis unfolding res using c i by (simp add: clearAbove_zero)
    qed
  qed
qed

lemma processBlock_clears:
  assumes fns: "postRenderReplaceFunctions a = fns @ [outputChannelClearAction used]"
    and ok: "fst (processBlock p block True a)"
    and c: "c < numChannels (audioOutput block)" and u: "unusedChannel used c"
    and i: "inFrames (audioOutput block) i"
  shows "hostOutput (snd (processBlock p block True a)) c i = 0"
proof -
  define b where "b = snd (stagesBeforeOutput p block a)"
  define d where "d = snd (runAll (runPostRender p block) fns b)"
  define e where "e = runPostRender p block (outputChannelClearAction used) d"
  have fb: "postRenderReplaceFunctions b = fns @ [outputChannelClearAction used]"
    using routing_fields(3) [OF stagesBeforeOutput_effect(1) [of p block a]] fns
    by (simp add: b_def)
  have ok1: "fst (stagesBeforeCapture p block True a)"
    using ok by (simp add: processBlock_stages andThen_cases split: if_splits)
  then have ok2: "fst (stagesBeforeOutput p block a)"
    by (simp add: stagesBeforeCapture_output andThen_cases split: if_splits)
  have "stagesBeforeCapture p block True a
          = runAll (runPostRender p block) (postRenderReplaceFunctions b) b"
    unfolding stagesBeforeCapture_output b_def using ok2 by (simp add: andThen_fst)
  then have eq1: "stagesBeforeCapture p block True a
               = andThen (runAll (runPostRender p block) fns b)
                   (runPostRender p block (outputChannelClearAction used))"
    unfolding fb runAll_append by (simp add: runAll_single)
  have ok3: "fst (runAll (runPostRender p block) fns b)"
    using ok1 unfolding eq1 by (simp add: fst_andThen)
  have eq2: "stagesBeforeCapture p block True a = e"
    unfolding eq1 e_def d_def using ok3 by (rule andThen_fst)
  have ok4: "fst e" and res: "snd (stagesBeforeCapture p block True a) = snd e"
    using ok1 by (simp_all add: eq2)
  have "hostOutput (snd e) c i = 0"
    unfolding e_def using ok4 c u i by (intro clearAction_zero) (simp_all add: e_def)
  then show ?thesis
    using ok1 by (simp add: processBlock_stages andThen_cases hostOutput_moveOutputEventsToQueue res)
qed

lemma clearsWithin_failed: "clearsWithin fns used at block r a (False, a)"
  by (simp add: clearsWithin_def)

lemma clearsWithin_done:
  "\<not> start < numFrames (audioOutput block) \<Longrightarrow>
     clearsWithin fns used (Loop start) block r a (True, a)"
  by (auto simp add: clearsWithin_def entryFrames_def)

lemma clearsWithin_Enter_Loop:
  "clearsWithin fns used (Loop 0) block r a res \<Longrightarrow> clearsWithin fns used Enter block r a res"
  by (simp add: clearsWithin_def entryFrames_def inFrames_def)

lemma clearsWithin_processBlock:
  "clearsWithin fns used Enter block r a (processBlock p block r a)"
  unfolding clearsWithin_def entryFrames_def
  using processBlock_effect(1) [of p block r a] processBlock_outside [of block _ p r a]
    processBlock_clears [of a fns used p block]
  by auto

lemma clearsWithin_step:
  assumes sub: "subBlock block start numToDo = Some sub"
    and first: "clearsWithin fns used Enter sub r a res1"
    and rest: "fst res1 \<Longrightarrow> clearsWithin fns used (Loop (start + numToDo)) block r (snd res1) res"
    and stop: "\<not> fst res1 \<Longrightarrow> res = (False, snd res1)"
  shows "clearsWithin fns used (Loop start) block r a res"
proof -
  let ?out = "audioOutput block"
  have out: "audioOutput sub = ?out\<lparr>frameStart := frameStart ?out + start, numFrames := numToDo\<rparr>"
    and fit: "start + numToDo \<le> numFrames ?out"
    using subBlock_Some(1,5) [OF sub] by simp_all
  have inSub: "inFrames (audioOutput sub) i
                 = (frameStart ?out + start \<le> i \<and> i < frameStart ?out + start + numToDo)" for i
    by (simp add: out inFrames_def)
  have r1: "routing (snd res1) = routing a"
    and o1: "\<And>c i. \<not> inFrames (audioOutput sub) i \<Longrightarrow> hostOutput (snd res1) c i = hostOutput a c i"
    and z1: "\<And>c i. r \<Longrightarrow> fst res1 \<Longrightarrow>
               postRenderReplaceFunctions a = fns @ [outputChannelClearAction used] \<Longrightarrow>
               inFrames (audioOutput sub) i \<Longrightarrow> c < numChannels ?out \<Longrightarrow> unusedChannel used c \<Longrightarrow>
               hostOutput (snd res1) c i = 0"
    using first by (simp_all add: clearsWithin_def entryFrames_def out)
  show ?thesis
  proof (cases "fst res1")
    case False
    have "res = (False, snd res1)" using stop False by simp
    moreover have "\<not> inFrames (audioOutput sub) i"
      if "\<not> (frameStart ?out + start \<le> i \<and> i < frameStart ?out + numFrames ?out)" for i
      using that fit by (auto simp: inSub)
    ultimately show ?thesis
      using r1 o1 by (simp add: clearsWithin_def entryFrames_def)
  next
    case True
    note rest = rest [OF True]
    have r2: "routing (snd res) = routing (snd res1)"
      and o2: "\<And>c i. \<not> (frameStart ?out + (start + numToDo) \<le> i
                           \<and> i < frameStart ?out + numFrames ?out) \<Longrightarrow>
                 hostOutput (snd res) c i = hostOutput (snd res1) c i"
      and z2: "\<And>c i. r \<Longrightarrow> fst res \<Longrightarrow>
               postRenderReplaceFunctions (snd res1) = fns @ [outputChannelClearAction used] \<Longrightarrow>
               frameStart ?out + (start + numToDo) \<le> i \<Longrightarrow> i < frameStart ?out + numFrames ?out \<Longrightarrow>
               c < numChannels ?out \<Longrightarrow> unusedChannel used c \<Longrightarrow>
               hostOutput (snd res) c i = 0"
      using rest by (simp_all add: clearsWithin_def entryFrames_def)
    have same: "postRenderReplaceFunctions (snd res1) = postRenderReplaceFunctions a"
      using routing_fields(3) [OF r1] .
    have outside: "hostOutput (snd res) c i = hostOutput a c i"
      if "\<not> (frameStart ?out + start \<le> i \<and> i < frameStart ?out + numFrames ?out)" for c i
    proof -
      have "\<not> inFrames (audioOutput sub) i" using that fit by (auto simp: inSub)
      moreover have "\<not> (frameStart ?out + (start + numToDo) \<le> i
                           \<and> i < frameStart ?out + numFrames ?out)"
        using that by auto
      ultimately show ?thesis using o1 o2 by simp
    qed
    have zero: "hostOutput (snd res) c i = 0"
      if "r" "fst res" "postRenderReplaceFunctions a = fns @ [outputChannelClearAction used]"
        "frameStart ?out + start \<le> i" "i < frameStart ?out + numFrames ?out"
        "c < numChannels ?out" "unusedChannel used c" for c i
    proof (cases "i < frameStart ?out + start + numToDo")
      case True
      then have "inFrames (audioOutput sub) i" using that(4) by (simp add: inSub)
      then have "hostOutput (snd res1) c i = 0"
        using z1 that \<open>fst res1\<close> by simp
      moreover have "hostOutput (snd res) c i = hostOutput (snd res1) c i"
        using True by (intro o2) simp
      ultimately show ?thesis by simp
    next
      case False
      then show ?thesis using z2 that same by simp
    qed
    show ?thesis
      unfolding clearsWithin_def entryFrames_def
      using r1 r2 outside zero by simp
  qed
qed

lemmas processFrom_induct = processFrom.raw_induct [rotated, consumes 1, case_names step]

lemma processFrom_clears:
  "processFrom at block r a = Some res \<Longrightarrow> clearsWithin fns used at block r a res"
proof (induction at block r a res rule: processFrom_induct)
  case (step pf at block r a res)
  note 1 = step
  show ?case
  proof (cases at)
    case Enter
    show ?thesis
    proof (cases "performer a")
      case None
      then have "res = (False, a)" using 1(2) Enter by simp
      then show ?thesis by (simp add: clearsWithin_failed)
    next
      case (Some p)
      show ?thesis
      proof (cases "currentMaxBlockSize a < numFrames (audioOutput block)")
        case True
        then have "pf (Loop 0) block r a = Some res" using 1(2) Enter Some by simp
        from 1(1) [OF this] show ?thesis unfolding Enter by (rule clearsWithin_Enter_Loop)
      next
        case False
        then have "res = processBlock p block r a" using 1(2) Enter Some by simp
        then show ?thesis unfolding Enter by (simp add: clearsWithin_processBlock)
      qed
    qed
  next
    case (Loop start)
    show ?thesis
    proof (cases "start < numFrames (audioOutput block)")
      case False
      then have "res = (True, a)" using 1(2) Loop by simp
      then show ?thesis unfolding Loop using False by (simp add: clearsWithin_done)
    next
      case True
      define numToDo where "numToDo = min (currentMaxBlockSize a) (numFrames (audioOutput block) - start)"
      show ?thesis
      proof (cases "subBlock block start numToDo")
        case None
        then have "res = (False, a)" using 1(2) Loop True by (simp add: numToDo_def)
        then show ?thesis by (simp add: clearsWithin_failed)
      next
        case (Some sub)
        have body: "Option.bind (pf Enter sub r a)
                      (\<lambda>x. if \<not> fst x then Some (False, snd x)
                            else pf (Loop (start + numToDo)) block r (snd x)) = Some res"
          using 1(2) Loop True Some by (simp add: numToDo_def [symmetric] Let_def)
        then obtain res1 where e1: "pf Enter sub r a = Some res1"
          and e2: "(if \<not> fst res1 then Some (False, snd res1)
                    else pf (Loop (start + numToDo)) block r (snd res1)) = Some res"
          by (cases "pf Enter sub r a") simp_all
        show ?thesis
          unfolding Loop
        proof (rule clearsWithin_step [OF Some])
          show "clearsWithin fns used Enter sub r a res1" using 1(1) [OF e1] .
          show "clearsWithin fns used (Loop (start + numToDo)) block r (snd res1) res" if "fst res1"
            using e2 that 1(1) [of "Loop (start + numToDo)" block r "snd res1" res] by simp
          show "res = (False, snd res1)" if "\<not> fst res1"
            using e2 that by simp
        qed
      qed
    qed
  qed
qed

text \<open>
  Claim C3. Take a harness whose replace functions are those of \<open>createPerformer b\<close>, that
  is, the builder's followed by the clear action for the builder's vector of used channels.
  After a call \<open>process block True\<close> that returns true, every channel of the block's
  output view that is not marked used (beyond the vector's length, or marked false in it)
  is zero on every frame of the view. If no channel is marked used, these are all the
  channels of the view.
\<close>

theorem unused_channels_cleared:
  assumes "postRenderReplaceFunctions a = postRenderReplaceFunctions (createPerformer b)"
    and "process block True a = Some (True, a')"
    and "c < numChannels (audioOutput block)"
    and "unusedChannel (audioOutputChannelsUsed b) c"
    and "inFrames (audioOutput block) i"
  shows "hostOutput a' c i = 0"
proof -
  have fns: "postRenderReplaceFunctions a
               = postRenderReplaceFunctions (result b)
                   @ [outputChannelClearAction (audioOutputChannelsUsed b)]"
    using assms(1) by (simp add: createPerformer_def createOutputChannelClearAction_def Let_def)
  have "clearsWithin (postRenderReplaceFunctions (result b)) (audioOutputChannelsUsed b)
          Enter block True a (True, a')"
    using assms(2) unfolding process_def by (rule processFrom_clears)
  then show ?thesis
    using fns assms(3,4,5) by (simp add: clearsWithin_def entryFrames_def)
qed

lemma usedSet_iff: "c \<in> usedSet used \<longleftrightarrow> c < length used \<and> used ! c"
  by (auto simp: usedSet_def)

lemma usedSet_resize:
  "usedSet (used @ replicate k False) = usedSet used"
  by (auto simp: usedSet_iff nth_append split: if_splits)

lemma usedSet_mark:
  "d < length used \<Longrightarrow> usedSet (used[d := True]) = insert d (usedSet used)"
  by (auto simp: usedSet_iff nth_list_update split: if_splits)

lemma classifyChannels_refines:
  "classifyChannels srcs ds used = Some ((overwrite, add, all), used') \<Longrightarrow>
   length srcs = length ds \<Longrightarrow>
     all = map (\<lambda>(s, d). \<lparr>source = s, dest = d\<rparr>) (zip srcs ds)
     \<and> (overwrite, add) = classifyFirstSeen (usedSet used) all
     \<and> usedSet used' = usedSet used \<union> set ds"
proof (induction srcs ds used arbitrary: overwrite add all used' rule: classifyChannels.induct)
  case (1 outputChannels used)
  then show ?case by simp
next
  case (2 src endpointChannels used)
  then show ?case by simp
next
  case (3 src endpointChannels d outputChannels used)
  define used1 where
    "used1 = (if length used \<le> d then used @ replicate (d + 1 - length used) False else used)"
  define c where "c = \<lparr>source = src, dest = d\<rparr>"
  have ok: "\<not> 2 ^ 32 \<le> d + 1"
    using "3.prems"(1) by (simp split: if_splits)
  have len: "d < length used1" by (simp add: used1_def)
  have set1: "usedSet used1 = usedSet used" by (simp add: used1_def usedSet_resize)
  have at: "used1 ! d = (d \<in> usedSet used)"
    using len set1 by (auto simp: usedSet_iff)
  have lens: "length endpointChannels = length outputChannels" using "3.prems"(2) by simp
  show ?case
  proof (cases "used1 ! d")
    case True
    then obtain o1 a1 l1 where
      rec: "classifyChannels endpointChannels outputChannels used1 = Some ((o1, a1, l1), used')"
      and res: "overwrite = o1" "add = c # a1" "all = c # l1"
      using "3.prems"(1) ok
      by (auto simp: used1_def [symmetric] c_def [symmetric] Let_def split: prod.splits)
    have din: "d \<in> usedSet used" using True at by simp
    from "3.IH"(1) [OF ok used1_def c_def True rec lens]
    show ?thesis
      using din by (simp add: res set1 c_def insert_absorb split: prod.splits) auto
  next
    case False
    then obtain o1 a1 l1 where
      rec: "classifyChannels endpointChannels outputChannels (used1[d := True])
              = Some ((o1, a1, l1), used')"
      and res: "overwrite = c # o1" "add = a1" "all = c # l1"
      using "3.prems"(1) ok
      by (auto simp: used1_def [symmetric] c_def [symmetric] Let_def split: prod.splits)
    have dout: "d \<notin> usedSet used" using False at by simp
    from "3.IH"(2) [OF ok used1_def c_def False rec lens]
    show ?thesis
      using dout by (simp add: res set1 c_def usedSet_mark [OF len] split: prod.splits) auto
  qed
qed

lemmas example_defs =
  exampleSpace_def monoStream_def eventEndpoint_def exampleEvent_def examplePerformer_def
  exampleEngine_def exampleBuilder_def exampleBlock_def started_def exampleEvents_def

lemmas builder_defs =
  newBuilder_def newAudioMIDIPerformer_def newFIFO_def countTotalAudioChannels_def
  connectAudioOutputTo_def addOutputCopyFunction_def createPerformer_def
  createOutputChannelClearAction_def outputChannelClearAction_def highestUsedChannel_def
  prepareToStart_def maxFramesPerBlock_def isFloat_def connectMIDIOutputTo_def
  setEventOutputHandler_def

lemmas process_defs =
  processBlock_def logCall_def addMIDIInputs_def dispatchMIDIOutputEvents_def
  iterateMIDIEndpoint_def moveOutputEventsToQueue_def moveOutputEventToQueue_def push_def
  writeChannel_def clearChannels_def clearAbove_def

lemmas upt_eval = upt_rec [of _ "numeral _"] upt_rec [of _ "Suc _"]

text \<open>
  Claim C2. The classification is as claimed (\<open>classifyChannels_refines\<close> above: a mapping is
  an add exactly when its destination was marked before, by an earlier connection or an
  earlier mapping of the same connection). The write is not: the replace function for a
  single-channel endpoint mapped to several fresh channels writes none of them when the
  first is missing from the host's block. A mono endpoint is connected to outputs 1 and 0,
  then a second mono endpoint to output 0; both mappings of the first connection are
  classified overwrite, the mapping of the second is classified add. On a host block of one
  channel, \<open>process\<close> in replace mode returns true and leaves in channel 0 the sample that
  was there before (100) plus the second endpoint's sample (1); the first endpoint's sample
  (10) is never written.
\<close>

theorem fan_out_leaves_overwrite_channel_unwritten:
  "\<exists>b a'. overlapBuilder = Some b
     \<and> postRenderReplaceFunctions (createPerformer b)
         = [OutputReplaceFanOut 1 [\<lparr>source = 0, dest = 1\<rparr>, \<lparr>source = 0, dest = 0\<rparr>],
            OutputReplaceViaScratch 2 1 [] [\<lparr>source = 0, dest = 0\<rparr>],
            ClearAbove 2]
     \<and> hostOutput (started b) 0 0 = 100
     \<and> outputFrames examplePerformer [] 1 0 0 = 10
     \<and> outputFrames examplePerformer [] 2 0 0 = 1
     \<and> process (exampleBlock 1 1 False) True (started b) = Some (True, a')
     \<and> hostOutput a' 0 0 = 100 + 1"
proof -
  obtain b where b: "overlapBuilder = Some b"
    by (simp add: overlapBuilder_def example_defs builder_defs Let_def upt_eval)
  have fns: "postRenderReplaceFunctions (createPerformer b)
         = [OutputReplaceFanOut 1 [\<lparr>source = 0, dest = 1\<rparr>, \<lparr>source = 0, dest = 0\<rparr>],
            OutputReplaceViaScratch 2 1 [] [\<lparr>source = 0, dest = 0\<rparr>],
            ClearAbove 2]"
    and p: "performer (started b) = Some examplePerformer"
    and m: "currentMaxBlockSize (started b) = 2"
    and h: "hostOutput (started b) 0 0 = 100"
    using b by (auto simp add: overlapBuilder_def example_defs builder_defs Let_def upt_eval)
  define r where "r = processBlock examplePerformer (exampleBlock 1 1 False) True (started b)"
  have r: "fst r" "hostOutput (snd r) 0 0 = 101"
    using b unfolding r_def
    by (auto simp add: overlapBuilder_def example_defs builder_defs process_defs Let_def upt_eval)
  have "process (exampleBlock 1 1 False) True (started b) = Some r"
    using process_split [OF p m, of "exampleBlock 1 1 False" True]
    by (simp add: r_def exampleBlock_def)
  then have "process (exampleBlock 1 1 False) True (started b) = Some (True, snd r)"
    using r(1) by (cases r) simp
  then show ?thesis
    using b fns h r(2) by (intro exI [of _ b] exI [of _ "snd r"]) (simp add: examplePerformer_def)
qed

lemmas witness_defs =
  singleBuilder_def offsetBuilder_def midiBuilder_def eventBuilder_def exampleCoerce_def
  smallQueues_def


theorem unused_channels_cleared_witness:
  "\<exists>b a'. offsetBuilder = Some b \<and> audioOutputChannelsUsed b = [False, True]
     \<and> process (exampleBlock 3 2 False) True (started b) = Some (True, a')
     \<and> hostOutput (started b) 0 1 = 100 \<and> hostOutput (started b) 2 0 = 100
     \<and> hostOutput a' 0 1 = 0 \<and> hostOutput a' 2 0 = 0"
proof -
  obtain b where b: "offsetBuilder = Some b"
    by (simp add: witness_defs example_defs builder_defs Let_def upt_eval)
  have p: "performer (started b) = Some examplePerformer"
    and m: "currentMaxBlockSize (started b) = 2"
    and u: "audioOutputChannelsUsed b = [False, True]"
    and h: "hostOutput (started b) 0 1 = 100" "hostOutput (started b) 2 0 = 100"
    and f: "postRenderReplaceFunctions (started b) = postRenderReplaceFunctions (createPerformer b)"
    using b by (auto simp add: witness_defs example_defs builder_defs Let_def upt_eval)
  define r where "r = processBlock examplePerformer (exampleBlock 3 2 False) True (started b)"
  have ok: "fst r"
    using b unfolding r_def
    by (auto simp add: witness_defs example_defs builder_defs process_defs Let_def upt_eval)
  have "process (exampleBlock 3 2 False) True (started b) = Some r"
    using process_split [OF p m, of "exampleBlock 3 2 False" True]
    by (simp add: r_def exampleBlock_def)
  then have run: "process (exampleBlock 3 2 False) True (started b) = Some (True, snd r)"
    using ok by (cases r) simp
  have c: "(0::nat) < numChannels (audioOutput (exampleBlock 3 2 False))"
    "(2::nat) < numChannels (audioOutput (exampleBlock 3 2 False))"
    and fr: "inFrames (audioOutput (exampleBlock 3 2 False)) 1"
      "inFrames (audioOutput (exampleBlock 3 2 False)) 0"
    and un: "unusedChannel (audioOutputChannelsUsed b) 0" "unusedChannel (audioOutputChannelsUsed b) 2"
    by (simp_all add: exampleBlock_def inFrames_def unusedChannel_def u)
  have "hostOutput (snd r) 0 1 = 0"
    using unused_channels_cleared [OF f run c(1) un(1) fr(1)] .
  moreover have "hostOutput (snd r) 2 0 = 0"
    using unused_channels_cleared [OF f run c(2) un(2) fr(2)] .
  ultimately show ?thesis
    using b u run h by (intro exI [of _ b] exI [of _ "snd r"]) simp
qed

theorem midi_output_dispatch_witness:
  "onMidiOutputMessage (exampleBlock 1 2 True)
   \<and> midiOutputEndpoints (started midiBuilder) = [4, 5]
   \<and> map frameOffset (outputEvents examplePerformer [] 4) = [5, 1]
   \<and> map frameOffset (outputEvents examplePerformer [] 5) = [1, 3]
   \<and> fst (dispatchMIDIOutputEvents examplePerformer (exampleBlock 1 2 True) (started midiBuilder))
   \<and> midiOutputDelivered
        (snd (dispatchMIDIOutputEvents examplePerformer (exampleBlock 1 2 True) (started midiBuilder)))
       = [(1, fst (midiOutputMessage (exampleEvent 1 [0, 60, 128, 0]))),
          (1, fst (midiOutputMessage (exampleEvent 1 [64, 62, 144, 0]))),
          (3, fst (midiOutputMessage (exampleEvent 3 [0, 62, 128, 0]))),
          (5, fst (midiOutputMessage (exampleEvent 5 [64, 60, 144, 0])))]
   \<and> sorted (map fst (midiOutputDelivered
        (snd (dispatchMIDIOutputEvents examplePerformer (exampleBlock 1 2 True) (started midiBuilder)))))"
proof -
  let ?r = "dispatchMIDIOutputEvents examplePerformer (exampleBlock 1 2 True) (started midiBuilder)"
  have cb: "onMidiOutputMessage (exampleBlock 1 2 True)"
    by (simp add: exampleBlock_def)
  have none: "midiOutputDelivered (started midiBuilder) = []"
    by (simp add: witness_defs example_defs builder_defs Let_def upt_eval)
  have "sorted (map fst (drop (length (midiOutputDelivered (started midiBuilder)))
                                 (midiOutputDelivered (snd ?r))))"
    using midi_output_dispatch [of "exampleBlock 1 2 True" examplePerformer "started midiBuilder"] cb
    by (simp add: Let_def)
  then have srt: "sorted (map fst (midiOutputDelivered (snd ?r)))"
    by (simp add: none)
  have ev: "fst ?r" "midiOutputDelivered (snd ?r)
       = [(1, fst (midiOutputMessage (exampleEvent 1 [0, 60, 128, 0]))),
          (1, fst (midiOutputMessage (exampleEvent 1 [64, 62, 144, 0]))),
          (3, fst (midiOutputMessage (exampleEvent 3 [0, 62, 128, 0]))),
          (5, fst (midiOutputMessage (exampleEvent 5 [64, 60, 144, 0])))]"
    by (simp_all add: witness_defs example_defs builder_defs process_defs Let_def upt_eval
          midiOutputMessage_def word_le_nat_alt)
  have ends: "midiOutputEndpoints (started midiBuilder) = [4, 5]"
    by (simp add: witness_defs example_defs builder_defs Let_def upt_eval)
  show ?thesis
    using cb srt ev ends by (simp add: examplePerformer_def exampleEvent_def)
qed

theorem postEvent_contract_witness:
  "postEvent exampleCoerce 7 False smallQueues = (False, smallQueues)
   \<and> fst (postEvent exampleCoerce 7 True smallQueues)
   \<and> fifoItems (eventQueue (snd (postEvent exampleCoerce 7 True smallQueues)))
       = [eventRecord 7 5 [1, 2]]
   \<and> postEvent exampleCoerce 7 True (snd (postEvent exampleCoerce 7 True smallQueues))
       = (False, snd (postEvent exampleCoerce 7 True smallQueues))"
proof -
  have none: "postEvent exampleCoerce 7 False smallQueues = (False, smallQueues)"
    using postEvent_contract [of exampleCoerce 7 False smallQueues]
    by (simp add: exampleCoerce_def)
  have some: "let q = eventQueue a; r = eventRecord 7 (of_nat 5) [1, 2]
              in postEvent exampleCoerce 7 True a =
                   (if hasSpaceFor q (fifoItems q) (8 + length [1, 2 :: byte])
                    then (True, a\<lparr>eventQueue := q\<lparr>fifoItems := fifoItems q @ [r]\<rparr>\<rparr>)
                    else (False, a))
                 \<and> length r = 8 + length [1, 2 :: byte]
                 \<and> readNativeEndian32 r = 7
                 \<and> readNativeEndian32 (drop 4 r) = of_nat 5
                 \<and> drop 8 r = [1, 2]" for a :: "nat AudioMIDIPerformer"
  proof -
    have "exampleCoerce 7 True = Some (5, [1, 2]) \<and> 8 + length [1, 2 :: byte] < 2 ^ 32"
      by (simp add: exampleCoerce_def)
    with postEvent_contract [of exampleCoerce 7 True a] show ?thesis by blast
  qed
  have first: "postEvent exampleCoerce 7 True smallQueues
          = (True, smallQueues\<lparr>eventQueue := (eventQueue smallQueues)
                \<lparr>fifoItems := [eventRecord 7 5 [1, 2]]\<rparr>\<rparr>)"
    using some [of smallQueues]
    by (simp add: witness_defs example_defs builder_defs Let_def)
  have second: "postEvent exampleCoerce 7 True (snd (postEvent exampleCoerce 7 True smallQueues))
          = (False, snd (postEvent exampleCoerce 7 True smallQueues))"
    using some [of "snd (postEvent exampleCoerce 7 True smallQueues)"] unfolding first
    by (simp add: witness_defs example_defs builder_defs Let_def eventRecord_def)
  show ?thesis
    using none first second by (simp add: exampleCoerce_def)
qed



theorem output_event_overflow_witness:
  "\<exists>b a'. eventBuilder = Some b \<and> eventOutputHandles (started b) = [(3, ''ev'')]
     \<and> queued (started b) = []
     \<and> outputEventsFit 3 (take 2 exampleEvents) (started b)
     \<and> outputEventFits (exampleEvents ! 2)
          (iterateOutputEvents (moveToQueue 3) (take 2 exampleEvents) (started b)) = False
     \<and> queued (iterateOutputEvents (moveToQueue 3) exampleEvents (started b))
         = map (outputEventRecord 3 0) (take 2 exampleEvents)
     \<and> process (exampleBlock 1 1 False) True (started b) = Some (True, a')
     \<and> queued a' = map (outputEventRecord 3 0) (take 2 exampleEvents)
     \<and> outputEventFits (exampleEvents ! 3) a'
     \<and> fst (moveOutputEventToQueue 3 0 0 [1, 1, 1, 1] smallQueues) = False
     \<and> queued (snd (moveOutputEventToQueue 3 0 0 [1, 1, 1, 1] smallQueues)) = queued smallQueues"
proof -
  obtain b where b: "eventBuilder = Some b"
    by (simp add: witness_defs example_defs builder_defs Let_def upt_eval)
  have p: "performer (started b) = Some examplePerformer"
    and m: "currentMaxBlockSize (started b) = 2"
    and z: "numFramesProcessed (started b) = 0"
    and hs: "eventOutputHandles (started b) = [(3, ''ev'')]"
    and q0: "queued (started b) = []"
    using b by (auto simp add: witness_defs example_defs builder_defs Let_def upt_eval queued_def)
  have ex: "exampleEvents = take 2 exampleEvents @ exampleEvents ! 2 # [exampleEvents ! 3]"
    by (simp add: exampleEvents_def)
  have fit: "outputEventsFit 3 (take 2 exampleEvents) (started b)"
    and full: "\<not> outputEventFits (exampleEvents ! 2)
          (iterateOutputEvents (moveToQueue 3) (take 2 exampleEvents) (started b))"
    using b
    by (auto simp add: witness_defs example_defs builder_defs Let_def upt_eval
         moveToQueue_def moveOutputEventToQueue_def push_def outputEventFits_def)
  have sizes: "\<forall>x \<in> set (take 2 exampleEvents). 16 + length (eventData x) < 2 ^ 32"
    by (simp add: exampleEvents_def exampleEvent_def)
  have "queued (iterateOutputEvents (moveToQueue 3)
                  (take 2 exampleEvents @ exampleEvents ! 2 # [exampleEvents ! 3]) (started b))
         = queued (started b) @ map (outputEventRecord 3 (numFramesProcessed (started b)))
                                   (take 2 exampleEvents)"
    using output_event_overflow [of "exampleEvents ! 2" "started b" 3 "take 2 exampleEvents"
        "[exampleEvents ! 3]", THEN conjunct2, THEN conjunct1, THEN mp,
        OF conjI [OF fit conjI [OF full sizes]], unfolded Let_def, THEN conjunct2] .
  then have it: "queued (iterateOutputEvents (moveToQueue 3) exampleEvents (started b))
         = map (outputEventRecord 3 0) (take 2 exampleEvents)"
    unfolding ex [symmetric] by (simp add: q0 z)
  define r where "r = processBlock examplePerformer (exampleBlock 1 1 False) True (started b)"
  have r: "fst r" "queued (snd r) = map (outputEventRecord 3 0) (take 2 exampleEvents)"
    "outputEventFits (exampleEvents ! 3) (snd r)"
    using b unfolding r_def
    by (auto simp add: witness_defs example_defs builder_defs process_defs Let_def upt_eval
          queued_def outputEventRecord_def outputEventFits_def)
  have "process (exampleBlock 1 1 False) True (started b) = Some r"
    using process_split [OF p m, of "exampleBlock 1 1 False" True]
    by (simp add: r_def exampleBlock_def)
  then have run: "process (exampleBlock 1 1 False) True (started b) = Some (True, snd r)"
    using r(1) by (cases r) simp
  have small: "\<not> outputEventFits (exampleEvent 0 [1, 1, 1, 1]) smallQueues"
    by (simp add: witness_defs example_defs builder_defs outputEventFits_def)
  have "moveOutputEventToQueue 3 0 0 [1, 1, 1, 1] smallQueues
          = (False, smallQueues\<lparr>dispatcherTriggers := dispatcherTriggers smallQueues + 1\<rparr>)"
    using output_event_overflow [of "exampleEvent 0 [1, 1, 1, 1]" smallQueues 3, THEN conjunct1] small
    by (simp add: exampleEvent_def)
  then have sm: "fst (moveOutputEventToQueue 3 0 0 [1, 1, 1, 1] smallQueues) = False"
    "queued (snd (moveOutputEventToQueue 3 0 0 [1, 1, 1, 1] smallQueues)) = queued smallQueues"
    by (simp_all add: queued_def)
  show ?thesis
    using b hs q0 fit full it run r(2,3) sm
    by (intro exI [of _ b] exI [of _ "snd r"]) simp
qed

end
